theory Spec2Isabelle
  imports Main "HOL-Library.Word"
begin

section \<open>Python values: bytes, strings, exceptions\<close>

text \<open>
  A \<open>bytes\<close>/\<open>bytearray\<close> value is a list of 8-bit words. A \<open>str\<close> is a \<open>string\<close>;
  every character that the functions below accept is ASCII, and a character outside
  ASCII is rejected by the first check of \<open>from_str\<close> whatever its code point is.
  An exception is a value of \<open>error\<close>, and a function that may raise returns
  \<open>error + 'a\<close> with \<open>Inl\<close> for the exception.
\<close>

type_synonym byte = "8 word"

text \<open>
  A \<open>FormalName\<close> is the list of its encoded components. Of the packet fields only what
  \<open>app.py\<close> reads is kept: the lifetime of an \<open>InterestParam\<close> (with the two matching flags
  and the nonce of section 3 of the specification) and the \<open>signature_info\<close> of the
  \<open>SignaturePtrs\<close>.
\<close>

type_synonym name = "byte list list"
type_synonym packet = "byte list"
type_synonym content = "byte list option"

record InterestParam =
  can_be_prefix :: bool
  must_be_fresh :: bool
  nonce :: "nat option"
  lifetime :: "nat option"

record MetaInfo =
  content_type :: nat
  freshness_period :: "nat option"
  final_block_id :: "byte list option"

record SignaturePtrs =
  signature_info :: "byte list option"
  signature_covered_part :: "byte list list"
  signature_value_buf :: "byte list option"

datatype error =
    ValueError
  | IndexError
  | KeyError
  | TypeError
  | StructError
  | MalformedEncoding
  | DecodeError
  | NetworkError
  | InterestTimeout
  | InterestCanceled
  | InterestNack nat
  | ValidationFailure name MetaInfo content

definition ascii_lowercase :: string where
  "ascii_lowercase = ''abcdefghijklmnopqrstuvwxyz''"

definition ascii_uppercase :: string where
  "ascii_uppercase = ''ABCDEFGHIJKLMNOPQRSTUVWXYZ''"

definition ascii_letters :: string where
  "ascii_letters = ascii_lowercase @ ascii_uppercase"

definition digits :: string where
  "digits = ''0123456789''"

text \<open>\<open>chr(val)\<close> for a byte, and \<open>ch.encode('utf-8')[0]\<close> for an ASCII character.\<close>

definition chr :: "byte \<Rightarrow> char" where
  "chr b = char_of (unat b)"

definition ord_byte :: "char \<Rightarrow> byte" where
  "ord_byte c = of_nat (of_char c)"

subsection \<open>\<open>int(s, base)\<close>\<close>

text \<open>
  Python's \<open>int\<close> on a string: an optional sign, for base 16 an optional prefix \<open>0x\<close>
  (which may be followed by one underscore), then digits with single underscores allowed
  between two digits. Leading and trailing whitespace, which \<open>int\<close> strips, does not occur:
  every string that reaches \<open>int\<close> in this module has passed the character check of
  \<open>from_str\<close>, and its alphabet holds no whitespace.
\<close>

definition digit_val :: "nat \<Rightarrow> char \<Rightarrow> nat option" where
  "digit_val base c =
     (let n = (of_char c :: nat);
          v = (if 48 \<le> n \<and> n \<le> 57 then Some (n - 48)
               else if 97 \<le> n \<and> n \<le> 122 then Some (n - 87)
               else if 65 \<le> n \<and> n \<le> 90 then Some (n - 55)
               else None)
      in case v of None \<Rightarrow> None | Some d \<Rightarrow> if d < base then Some d else None)"

fun py_digits :: "nat \<Rightarrow> nat \<Rightarrow> string \<Rightarrow> nat option" where
  "py_digits base acc [] = Some acc"
| "py_digits base acc [c] =
     (case digit_val base c of None \<Rightarrow> None | Some v \<Rightarrow> Some (acc * base + v))"
| "py_digits base acc (c # d # ds) =
     (if c = CHR ''_'' then
        (case digit_val base d of None \<Rightarrow> None
         | Some v \<Rightarrow> py_digits base (acc * base + v) ds)
      else
        (case digit_val base c of None \<Rightarrow> None
         | Some v \<Rightarrow> py_digits base (acc * base + v) (d # ds)))"

definition py_unsigned :: "nat \<Rightarrow> string \<Rightarrow> nat option" where
  "py_unsigned base s =
     (case s of [] \<Rightarrow> None
      | c # cs \<Rightarrow> (case digit_val base c of None \<Rightarrow> None | Some v \<Rightarrow> py_digits base v cs))"

definition py_body :: "nat \<Rightarrow> string \<Rightarrow> nat option" where
  "py_body base s =
     (if base = 16 \<and> (take 2 s = ''0x'' \<or> take 2 s = ''0X'') then
        (let r = drop 2 s in py_unsigned base (if take 1 r = ''_'' then drop 1 r else r))
      else py_unsigned base s)"

definition py_int :: "nat \<Rightarrow> string \<Rightarrow> error + int" where
  "py_int base s =
     (let r = (case s of [] \<Rightarrow> None
               | c # cs \<Rightarrow>
                   if c = CHR ''-'' then map_option (\<lambda>n. - int n) (py_body base cs)
                   else if c = CHR ''+'' then map_option int (py_body base cs)
                   else map_option int (py_body base s))
      in case r of None \<Rightarrow> Inl ValueError | Some n \<Rightarrow> Inr n)"

subsection \<open>\<open>str(n)\<close>, \<open>bytes.hex()\<close>, \<open>'%02X'\<close> and \<open>bytearray.fromhex\<close>\<close>

definition digit_char :: "nat \<Rightarrow> char" where
  "digit_char d = ''0123456789'' ! d"

function dec_str :: "nat \<Rightarrow> string" where
  "dec_str n = (if n < 10 then [digit_char n] else dec_str (n div 10) @ [digit_char (n mod 10)])"
  by pat_completeness auto
termination
  by (relation "measure id") auto

declare dec_str.simps [simp del]

definition hex_lower_digit :: "nat \<Rightarrow> char" where
  "hex_lower_digit d = ''0123456789abcdef'' ! d"

definition hex_upper_digit :: "nat \<Rightarrow> char" where
  "hex_upper_digit d = ''0123456789ABCDEF'' ! d"

definition hex :: "byte list \<Rightarrow> string" where
  "hex bs = concat (map (\<lambda>b. [hex_lower_digit (unat b div 16), hex_lower_digit (unat b mod 16)]) bs)"

definition format_02X :: "byte \<Rightarrow> string" where
  "format_02X b = [hex_upper_digit (unat b div 16), hex_upper_digit (unat b mod 16)]"

text \<open>
  \<open>bytearray.fromhex\<close> reads pairs of hexadecimal digits (it also skips whitespace, which
  the alphabet of \<open>from_str\<close> excludes) and raises \<open>ValueError\<close> on anything else.
\<close>

fun fromhex :: "string \<Rightarrow> error + byte list" where
  "fromhex [] = Inr []"
| "fromhex [c] = Inl ValueError"
| "fromhex (a # b # rest) =
     (case (digit_val 16 a, digit_val 16 b) of
        (Some x, Some y) \<Rightarrow>
          (case fromhex rest of Inl e \<Rightarrow> Inl e | Inr bs \<Rightarrow> Inr (of_nat (16 * x + y) # bs))
      | _ \<Rightarrow> Inl ValueError)"

section \<open>TLV numbers (\<open>ndn/encoding/tlv_var.py\<close>)\<close>

text \<open>
  Modelled from the spec: \<open>get_tl_num_size\<close>, \<open>write_tl_num\<close> and \<open>parse_tl_num\<close> are
  imported by Component.py from \<open>tlv_var\<close>, whose source is not at hand. Section 4.1 of the
  specification: an unsigned integer is encoded in 1, 3, 5 or 9 bytes; a value below 253 is
  one byte, otherwise a marker byte 253, 254 or 255 is followed by the value in 2, 4 or 8
  bytes, big-endian, in the smallest width that holds it. Decoding reads the marker, takes
  the width from it and fails when fewer bytes remain than the width requires; it accepts
  any width that fits. A value that no width holds (negative, or \<open>2 ^ 64\<close> and above) cannot
  be written.
\<close>

fun be_bytes :: "nat \<Rightarrow> nat \<Rightarrow> byte list" where
  "be_bytes 0 n = []"
| "be_bytes (Suc k) n = be_bytes k (n div 256) @ [of_nat (n mod 256)]"

definition be_val :: "byte list \<Rightarrow> nat" where
  "be_val bs = foldl (\<lambda>a b. a * 256 + unat b) 0 bs"

definition get_tl_num_size :: "int \<Rightarrow> nat" where
  "get_tl_num_size v =
     (if v < 253 then 1 else if v \<le> 0xFFFF then 3 else if v \<le> 0xFFFFFFFF then 5 else 9)"

definition tl_num_bytes :: "int \<Rightarrow> error + byte list" where
  "tl_num_bytes v =
     (if v < 0 \<or> 2 ^ 64 \<le> v then Inl StructError
      else if v < 253 then Inr [of_int v]
      else if v \<le> 0xFFFF then Inr (253 # be_bytes 2 (nat v))
      else if v \<le> 0xFFFFFFFF then Inr (254 # be_bytes 4 (nat v))
      else Inr (255 # be_bytes 8 (nat v)))"

text \<open>Writing \<open>bs\<close> into the buffer at \<open>offset\<close>; the buffer must hold them.\<close>

definition write_at :: "byte list \<Rightarrow> nat \<Rightarrow> byte list \<Rightarrow> error + byte list" where
  "write_at buf offset bs =
     (if offset + length bs \<le> length buf
      then Inr (take offset buf @ bs @ drop (offset + length bs) buf)
      else Inl StructError)"

definition write_tl_num :: "int \<Rightarrow> byte list \<Rightarrow> nat \<Rightarrow> error + byte list" where
  "write_tl_num v buf offset =
     (case tl_num_bytes v of Inl e \<Rightarrow> Inl e | Inr bs \<Rightarrow> write_at buf offset bs)"

definition parse_tl_num :: "byte list \<Rightarrow> nat \<Rightarrow> error + (nat \<times> nat)" where
  "parse_tl_num buf offset =
     (if length buf \<le> offset then Inl MalformedEncoding
      else let m = unat (buf ! offset);
               w = (if m < 253 then 0 else if m = 253 then 2 else if m = 254 then 4 else 8)
           in if m < 253 then Inr (m, 1)
              else if length buf < offset + 1 + w then Inl MalformedEncoding
              else Inr (be_val (take w (drop (offset + 1) buf)), 1 + w))"

section \<open>Name components (\<open>ndn/encoding/name/Component.py\<close>)\<close>

definition CHARSET :: "char set" where
  "CHARSET = set ascii_letters \<union> set digits
             \<union> {CHR ''-'', CHR ''.'', CHR ''_'', CHR ''~'', CHR ''='', CHR ''%''}"

definition TYPE_INVALID :: nat where "TYPE_INVALID = 0x00"
definition TYPE_GENERIC :: nat where "TYPE_GENERIC = 0x08"
definition TYPE_IMPLICIT_SHA256 :: nat where "TYPE_IMPLICIT_SHA256 = 0x01"
definition TYPE_PARAMETERS_SHA256 :: nat where "TYPE_PARAMETERS_SHA256 = 0x02"

text \<open>
  \<open>from_bytes\<close>: a buffer of the full size, the type and the length written into it, the
  value assigned to the slice after them.
\<close>

definition from_bytes :: "byte list \<Rightarrow> int \<Rightarrow> error + byte list" where
  "from_bytes val typ =
     (let size_typ = get_tl_num_size typ;
          size_len = get_tl_num_size (int (length val));
          ret = replicate (size_typ + size_len + length val) 0
      in case write_tl_num typ ret 0 of Inl e \<Rightarrow> Inl e
         | Inr ret1 \<Rightarrow>
             (case write_tl_num (int (length val)) ret1 size_typ of Inl e \<Rightarrow> Inl e
              | Inr ret2 \<Rightarrow> Inr (take (size_typ + size_len) ret2 @ val)))"

text \<open>
  The first loop of \<open>from_str\<close>: every character must be in \<open>CHARSET\<close>; percent signs are
  counted; the index of the \<open>=\<close> is kept, and a second \<open>=\<close> is an error.
\<close>

fun check_charset :: "string \<Rightarrow> nat \<Rightarrow> nat \<Rightarrow> nat option \<Rightarrow> error + (nat \<times> nat option)" where
  "check_charset [] i percent_cnt type_offset = Inr (percent_cnt, type_offset)"
| "check_charset (ch # rest) i percent_cnt type_offset =
     (if ch \<notin> CHARSET then Inl ValueError
      else
        let percent_cnt' = (if ch = CHR ''%'' then percent_cnt + 1 else percent_cnt)
        in if ch = CHR ''='' then
             (case type_offset of
                Some _ \<Rightarrow> Inl ValueError
              | None \<Rightarrow> check_charset rest (i + 1) percent_cnt' (Some i))
           else check_charset rest (i + 1) percent_cnt' type_offset)"

text \<open>
  The last loop of \<open>from_str\<close>, on the characters from index \<open>i\<close> on. \<open>encode()\<close> stores
  one byte at \<open>pos\<close>: the character itself, or for a percent sign the value of
  \<open>int(val[i+1:i+3], 16)\<close>, and the index moves by 1 or by 3. An \<open>IndexError\<close> of the store
  is turned into \<open>ValueError\<close> by \<open>raise_except\<close>; a \<open>ValueError\<close> of \<open>int\<close> or of the
  store of a value outside \<open>0..255\<close> leaves \<open>from_str\<close> as it is.
\<close>

fun encode_loop :: "string \<Rightarrow> nat \<Rightarrow> byte list \<Rightarrow> error + byte list" where
  "encode_loop [] pos view = Inr view"
| "encode_loop (ch # rest) pos view =
     (if ch \<noteq> CHR ''%'' then
        (if pos < length view then encode_loop rest (pos + 1) (view[pos := ord_byte ch])
         else Inl ValueError)
      else
        (case py_int 16 (take 2 rest) of
           Inl e \<Rightarrow> Inl e
         | Inr v \<Rightarrow>
             if pos \<ge> length view then Inl ValueError
             else if v < 0 \<or> 255 < v then Inl ValueError
             else encode_loop (drop 2 rest) (pos + 1) (view[pos := of_int v])))"

text \<open>
  The part of \<open>from_str\<close> after the type is known (\<open>type_offset\<close> is \<open>-1\<close> when there is no
  \<open>=\<close>): the buffer is allocated for \<open>length\<close> value bytes, type and length are written,
  and the loop fills the value in.
\<close>

definition from_str_body :: "string \<Rightarrow> int \<Rightarrow> int \<Rightarrow> nat \<Rightarrow> error + byte list" where
  "from_str_body val typ type_offset percent_cnt =
     (let length_v = int (length val) - type_offset - 1 - 2 * int percent_cnt in
      if length_v < 0 then Inl ValueError
      else
        let size_typ = get_tl_num_size typ;
            size_len = get_tl_num_size length_v;
            ret = replicate (size_typ + size_len + nat length_v) 0
        in case write_tl_num typ ret 0 of Inl e \<Rightarrow> Inl e
           | Inr ret1 \<Rightarrow>
               (case write_tl_num length_v ret1 size_typ of Inl e \<Rightarrow> Inl e
                | Inr ret2 \<Rightarrow>
                    encode_loop (drop (nat (type_offset + 1)) val) (size_typ + size_len) ret2))"

text \<open>
  \<open>from_str\<close>. Inside its \<open>try\<close> block a \<open>ValueError\<close> of \<open>fromhex\<close> or of \<open>int\<close> becomes the
  \<open>ValueError\<close> of \<open>raise_except\<close>.
\<close>

definition from_str :: "string \<Rightarrow> error + byte list" where
  "from_str val =
     (if val = [] then Inr [0x08, 0x00]
      else case check_charset val 0 0 None of
        Inl e \<Rightarrow> Inl e
      | Inr (percent_cnt, type_offset) \<Rightarrow>
          (case type_offset of
             Some off \<Rightarrow>
               (let typ_str = take off val in
                if typ_str = ''sha256digest'' then
                  (case fromhex (drop (off + 1) val) of
                     Inl e \<Rightarrow> Inl ValueError
                   | Inr bs \<Rightarrow> from_bytes bs (int TYPE_IMPLICIT_SHA256))
                else if typ_str = ''params-sha256'' then
                  (case fromhex (drop (off + 1) val) of
                     Inl e \<Rightarrow> Inl ValueError
                   | Inr bs \<Rightarrow> from_bytes bs (int TYPE_PARAMETERS_SHA256))
                else
                  (case py_int 10 typ_str of
                     Inl e \<Rightarrow> Inl ValueError
                   | Inr typ \<Rightarrow> from_str_body val typ (int off) percent_cnt))
           | None \<Rightarrow> from_str_body val (int TYPE_GENERIC) (- 1) percent_cnt))"

text \<open>
  \<open>to_str\<close>: type and length are parsed, the length must account for the rest of the
  component; the two digest types are written with their prefix and \<open>bytes.hex()\<close>, any
  other type but the generic one with \<open><type>=\<close>, and the value byte by byte through
  \<open>decode\<close>.
\<close>

definition decode :: "byte \<Rightarrow> string" where
  "decode val =
     (let ret = chr val in
      if ret \<in> CHARSET \<and> ret \<notin> {CHR ''%'', CHR ''=''} then [ret]
      else CHR ''%'' # format_02X val)"

definition to_str :: "byte list \<Rightarrow> error + string" where
  "to_str component =
     (case parse_tl_num component 0 of
        Inl e \<Rightarrow> Inl e
      | Inr (typ, sz) \<Rightarrow>
          (case parse_tl_num component sz of
             Inl e \<Rightarrow> Inl e
           | Inr (length_v, sz') \<Rightarrow>
               let offset = sz + sz' in
               if length component \<noteq> length_v + offset then Inl ValueError
               else if typ = TYPE_IMPLICIT_SHA256 then
                 Inr (''sha256digest='' @ hex (drop offset component))
               else if typ = TYPE_PARAMETERS_SHA256 then
                 Inr (''params-sha256='' @ hex (drop offset component))
               else
                 let ret = (if typ \<noteq> TYPE_GENERIC then dec_str typ @ ''='' else [])
                 in Inr (ret @ concat (map decode (drop offset component)))))"

subsection \<open>The URI form of a component, as the specification words it\<close>

text \<open>
  Section 4.2: the digest types are written with their two prefixes and lower-case
  hexadecimal digits; any other type but the generic one is written \<open><type>=\<close>; every
  byte outside the unreserved set (letters, digits, \<open>-\<close>, \<open>.\<close>, \<open>_\<close>, \<open>~\<close>) is written
  \<open>%XX\<close> with upper-case hexadecimal digits.
\<close>

definition unreserved :: "char set" where
  "unreserved = set ascii_letters \<union> set digits \<union> {CHR ''-'', CHR ''.'', CHR ''_'', CHR ''~''}"

definition percent_XX :: "byte \<Rightarrow> string" where
  "percent_XX b = [CHR ''%'', ''0123456789ABCDEF'' ! (unat b div 16), ''0123456789ABCDEF'' ! (unat b mod 16)]"

definition lower_hex :: "byte \<Rightarrow> string" where
  "lower_hex b = [''0123456789abcdef'' ! (unat b div 16), ''0123456789abcdef'' ! (unat b mod 16)]"

definition uri_segment :: "nat \<Rightarrow> byte list \<Rightarrow> string" where
  "uri_segment typ v =
     (if typ = 1 then ''sha256digest='' @ concat (map lower_hex v)
      else if typ = 2 then ''params-sha256='' @ concat (map lower_hex v)
      else (if typ = 8 then [] else dec_str typ @ ''='')
           @ concat (map (\<lambda>b. if chr b \<in> unreserved then [chr b] else percent_XX b) v))"

subsection \<open>Auxiliary notions of the proofs\<close>

definition is_dec_digit :: "char \<Rightarrow> bool" where
  "is_dec_digit c \<longleftrightarrow> (\<exists>d<10. c = digit_char d)"

definition dec_fold :: "nat \<Rightarrow> string \<Rightarrow> nat" where
  "dec_fold acc s = foldl (\<lambda>a c. a * 10 + the (digit_val 10 c)) acc s"

definition plain :: "char \<Rightarrow> bool" where
  "plain c \<longleftrightarrow> c \<in> CHARSET \<and> c \<noteq> CHR ''=''"

section \<open>Packets, futures and the name trees\<close>

text \<open>
  The packet codec (\<open>ndn/encoding\<close>), the validators (\<open>ndn/security\<close>), the face
  (\<open>ndn/transport\<close>) and the name tree (\<open>ndn/name_tree.py\<close>) are imported by \<open>app.py\<close>
  and are not part of the sources at hand.
\<close>

text \<open>
  A validator and a route (the handler of a registered prefix) are callables; each is an
  identifier here, and the environment below says what a validator answers.
\<close>

type_synonym validator = nat
type_synonym route = nat
type_synonym future = nat

text \<open>
  What an \<open>asyncio\<close> future holds once it is done: the result \<open>(name, meta_info, content)\<close>
  that \<open>express_interest\<close> returns to its caller, an exception, or its cancellation.
\<close>

datatype outcome =
    Result name MetaInfo content
  | Failed error
  | Cancelled

datatype log_record = No_route | Drop_malformed | Drop_unvalidated | Unable_to_decode

datatype event =
    Params_checked name
  | Validated validator name
  | Called route name InterestParam content
  | Logged log_record

subsection \<open>Nodes of the two trees\<close>

text \<open>
  Modelled from the spec: \<open>InterestTreeNode\<close> and \<open>PrefixTreeNode\<close> are classes of
  \<open>ndn/name_tree.py\<close>. Section 3: a PIT entry holds one or more pending waiters, the
  outstanding lifetime and an optional validator; a registration entry holds one handler
  and an optional validator. Section 4.5: an expression appends a waiter and the lifetime of
  the entry becomes the maximum of the existing and the new one; on a Data that the
  validator accepts every waiter of the entry receives the Data (section 8: a waiter that
  does not allow prefix matching only from a Data of exactly its name), and the entry is
  removed once no waiter is left; on expiry the waiter is removed, and the entry with it if
  that empties the waiter set; on a Nack all waiters receive the reason and the entry is
  removed. A method of a node returns the node as it leaves it, the futures it completes
  and the flag that \<open>app.py\<close> reads (true: the entry is to be deleted from the tree).
\<close>

record InterestTreeNode =
  pending_list :: "(future \<times> InterestParam) list"
  entry_lifetime :: "nat option"
  validator :: "validator option"

record PrefixTreeNode =
  callback :: "route option"
  pvalidator :: "validator option"

definition new_InterestTreeNode :: InterestTreeNode where
  "new_InterestTreeNode = \<lparr>pending_list = [], entry_lifetime = None, validator = None\<rparr>"

definition new_PrefixTreeNode :: PrefixTreeNode where
  "new_PrefixTreeNode = \<lparr>callback = None, pvalidator = None\<rparr>"

definition max_lifetime :: "nat option \<Rightarrow> nat option \<Rightarrow> nat option" where
  "max_lifetime a b =
     (case a of None \<Rightarrow> b | Some x \<Rightarrow> (case b of None \<Rightarrow> Some x | Some y \<Rightarrow> Some (max x y)))"

definition append_interest :: "InterestTreeNode \<Rightarrow> future \<Rightarrow> InterestParam \<Rightarrow> InterestTreeNode" where
  "append_interest node fut param =
     node\<lparr>pending_list := pending_list node @ [(fut, param)],
          entry_lifetime := max_lifetime (entry_lifetime node) (lifetime param)\<rparr>"

type_synonym node_result = "InterestTreeNode \<times> (future \<times> outcome) list \<times> bool"

definition satisfy ::
  "InterestTreeNode \<Rightarrow> name \<Rightarrow> MetaInfo \<Rightarrow> content \<Rightarrow> bool \<Rightarrow> node_result" where
  "satisfy node nm meta_info cont is_prefix =
     (let served = filter (\<lambda>(fut, param). can_be_prefix param \<or> \<not> is_prefix) (pending_list node);
          left = filter (\<lambda>(fut, param). \<not> (can_be_prefix param \<or> \<not> is_prefix)) (pending_list node)
      in (node\<lparr>pending_list := left\<rparr>,
          map (\<lambda>(fut, param). (fut, Result nm meta_info cont)) served,
          left = []))"

definition timeout :: "InterestTreeNode \<Rightarrow> future \<Rightarrow> InterestTreeNode \<times> bool" where
  "timeout node fut =
     (let left = filter (\<lambda>(f, param). f \<noteq> fut) (pending_list node)
      in (node\<lparr>pending_list := left\<rparr>, left = []))"


subsection \<open>The trie\<close>

text \<open>
  Modelled from the spec: \<open>NameTrie\<close> is a class of \<open>ndn/name_tree.py\<close>; \<open>app.py\<close> uses
  it as a Python mapping from names to nodes (\<open>setdefault\<close>, subscript, \<open>del\<close>) with the
  two prefix queries of section 4.4: \<open>prefixes\<close> yields, from the shortest to the longest,
  every prefix of the name (the name itself included) that carries a value, and
  \<open>longest_prefix\<close> the deepest of them. The exact lookup yields the value or nothing:
  section 4.4 words it \<open>get(name) -> value | absent\<close>, and no operation of the trie fails
  but the removal at a key that carries no value, which reports it (\<open>KeyError\<close>).
\<close>

definition prefixes :: "(name \<rightharpoonup> 'v) \<Rightarrow> name \<Rightarrow> (name \<times> 'v) list" where
  "prefixes t nm =
     List.map_filter (\<lambda>n. map_option (Pair (take n nm)) (t (take n nm))) [0..<Suc (length nm)]"

definition longest_prefix :: "(name \<rightharpoonup> 'v) \<Rightarrow> name \<Rightarrow> (name \<times> 'v) option" where
  "longest_prefix t nm = (case rev (prefixes t nm) of [] \<Rightarrow> None | step # _ \<Rightarrow> Some step)"


definition delitem :: "(name \<rightharpoonup> 'v) \<Rightarrow> name \<Rightarrow> error + (name \<rightharpoonup> 'v)" where
  "delitem t nm = (case t nm of None \<Rightarrow> Inl KeyError | Some v \<Rightarrow> Inr (t(nm := None)))"

section \<open>The application (\<open>ndn/app.py\<close>)\<close>

text \<open>
  The collaborators of \<open>NDNApp\<close> whose code is elsewhere are the fields of an environment:
  what a validator answers for a name and its signature pointers, the structural check
  \<open>params_sha256_checker\<close>, the encoder \<open>make_interest\<close> (it returns the packet and the
  final name), the three parsers (each returns its fields or raises), the command name of
  \<open>make_reg_route_cmd\<close>, and the three outer type numbers. A validator is a coroutine in
  the source; here it answers at once, so that the handling of one packet is one step.
\<close>

record env =
  validate :: "validator \<Rightarrow> name \<Rightarrow> SignaturePtrs \<Rightarrow> bool"
  params_sha256_checker :: "name \<Rightarrow> SignaturePtrs \<Rightarrow> bool"
  make_interest :: "name \<Rightarrow> InterestParam \<Rightarrow> content \<Rightarrow> packet \<times> name"
  parse_interest :: "packet \<Rightarrow> bool \<Rightarrow> error + (name \<times> InterestParam \<times> content \<times> SignaturePtrs)"
  parse_data :: "packet \<Rightarrow> bool \<Rightarrow> error + (name \<times> MetaInfo \<times> content \<times> SignaturePtrs)"
  parse_network_nack :: "packet \<Rightarrow> bool \<Rightarrow> error + (nat \<times> packet)"
  make_reg_route_cmd :: "name \<Rightarrow> name"
  INTEREST :: nat
  DATA :: nat
  LP_PACKET :: nat

text \<open>
  The state of an \<open>NDNApp\<close>. The face is its \<open>running\<close> flag and the list of the packets
  given to \<open>face.send\<close>. The interest tree maps a name to a reference into the store
  \<open>nodes\<close>, since \<open>_wait_for_data\<close> keeps the node it was given and mutates it later.
  \<open>futures\<close> holds the futures that are done, \<open>future_count\<close> and \<open>node_count\<close> the number
  of futures and nodes created; \<open>trace\<close> records the calls of validators and handlers and
  the warnings logged.
\<close>

record NDNApp =
  face_running :: bool
  face_sent :: "packet list"
  int_tree :: "name \<rightharpoonup> nat"
  nodes :: "nat \<Rightarrow> InterestTreeNode"
  node_count :: nat
  prefix_tree :: "name \<rightharpoonup> PrefixTreeNode"
  int_validator :: validator
  data_validator :: validator
  futures :: "future \<rightharpoonup> outcome"
  future_count :: nat
  trace :: "event list"

text \<open>The arguments of the coroutine \<open>_wait_for_data\<close> that \<open>express_interest\<close> returns.\<close>

record waiter =
  w_future :: future
  w_lifetime :: "nat option"
  w_name :: name
  w_node :: nat

definition put_raw_packet :: "NDNApp \<Rightarrow> packet \<Rightarrow> (error + unit) \<times> NDNApp" where
  "put_raw_packet s data_v =
     (if \<not> face_running s then (Inl NetworkError, s)
      else (Inr (), s\<lparr>face_sent := face_sent s @ [data_v]\<rparr>))"

text \<open>
  \<open>express_interest\<close>. Lines 87 to 96 of \<open>app.py\<close> choose the signer and build the
  \<open>InterestParam\<close> from the keyword arguments (with a fresh nonce); both only feed
  \<open>make_interest\<close>, and \<open>interest_param\<close> is the parameter object they arrive at.
  \<open>setdefault\<close> returns the node of the final name, a new one if there is none.
\<close>

definition express_interest ::
  "env \<Rightarrow> NDNApp \<Rightarrow> name \<Rightarrow> content \<Rightarrow> validator option \<Rightarrow> InterestParam
     \<Rightarrow> (error + waiter) \<times> NDNApp" where
  "express_interest e s nm app_param validator_v interest_param =
     (if \<not> face_running s then (Inl NetworkError, s)
      else
        let (interest, final_name) = make_interest e nm interest_param app_param;
            fut = future_count s;
            s1 = s\<lparr>future_count := Suc (future_count s)\<rparr>;
            (r, s2) = (case int_tree s1 final_name of
                         Some r \<Rightarrow> (r, s1)
                       | None \<Rightarrow>
                           (node_count s1,
                            s1\<lparr>nodes := (nodes s1)(node_count s1 := new_InterestTreeNode),
                               node_count := Suc (node_count s1),
                               int_tree := (int_tree s1)(final_name \<mapsto> node_count s1)\<rparr>));
            node1 = append_interest (nodes s2 r) fut interest_param;
            node2 = node1\<lparr>validator := validator_v\<rparr>;
            s3 = s2\<lparr>nodes := (nodes s2)(r := node2)\<rparr>;
            s4 = s3\<lparr>face_sent := face_sent s3 @ [interest]\<rparr>
        in (Inr \<lparr>w_future = fut, w_lifetime = lifetime interest_param,
                  w_name = final_name, w_node = r\<rparr>, s4))"

text \<open>
  \<open>_wait_for_data\<close>, at the moment its \<open>await\<close> ends. A future that is done gives its
  result or raises its exception. Otherwise the wait ends by the timeout of \<open>wait_for\<close>
  (which cancels the future) or, when \<open>cancelled\<close>, by the cancellation of the caller.
  The time itself, \<open>lifetime / 1000\<close> seconds with 100 for no lifetime, is not modelled.
\<close>

definition wait_timeout :: "nat option \<Rightarrow> nat" where
  "wait_timeout lifetime_v = (case lifetime_v of None \<Rightarrow> 100 | Some l \<Rightarrow> l)"

definition wait_for_data ::
  "NDNApp \<Rightarrow> future \<Rightarrow> nat option \<Rightarrow> name \<Rightarrow> nat \<Rightarrow> bool
     \<Rightarrow> (error + name \<times> MetaInfo \<times> content) \<times> NDNApp" where
  "wait_for_data s fut lifetime_v nm node_ref cancelled =
     (case futures s fut of
        Some (Result n m c) \<Rightarrow> (Inr (n, m, c), s)
      | Some (Failed ex) \<Rightarrow> (Inl ex, s)
      | Some Cancelled \<Rightarrow> (Inl InterestCanceled, s)
      | None \<Rightarrow>
          if cancelled then (Inl InterestCanceled, s)
          else
            let s1 = s\<lparr>futures := (futures s)(fut \<mapsto> Cancelled)\<rparr>;
                (node1, empty) = timeout (nodes s1 node_ref) fut;
                s2 = s1\<lparr>nodes := (nodes s1)(node_ref := node1)\<rparr>
            in if empty then
                 (case delitem (int_tree s2) nm of
                    Inl ex \<Rightarrow> (Inl ex, s2)
                  | Inr t \<Rightarrow> (Inl InterestTimeout, s2\<lparr>int_tree := t\<rparr>))
               else (Inl InterestTimeout, s2))"

text \<open>
  \<open>register\<close> up to its first \<open>await\<close>. \<open>reg_param\<close> is the \<open>InterestParam\<close> that
  \<open>express_interest\<close> builds for \<open>lifetime=1000\<close>. \<open>Name.normalize\<close> leaves a formal name
  as it is.
\<close>

definition register ::
  "env \<Rightarrow> NDNApp \<Rightarrow> name \<Rightarrow> route \<Rightarrow> validator option \<Rightarrow> InterestParam
     \<Rightarrow> (error + waiter) \<times> NDNApp" where
  "register e s nm func validator_v reg_param =
     (let (node, s1) = (case prefix_tree s nm of
                          Some node \<Rightarrow> (node, s)
                        | None \<Rightarrow> (new_PrefixTreeNode,
                                    s\<lparr>prefix_tree := (prefix_tree s)(nm \<mapsto> new_PrefixTreeNode)\<rparr>))
      in if callback node \<noteq> None then (Inl ValueError, s1)
         else
           let node1 = node\<lparr>callback := Some func\<rparr>;
               node2 = (case validator_v of None \<Rightarrow> node1 | Some v \<Rightarrow> node1\<lparr>pvalidator := Some v\<rparr>);
               s2 = s1\<lparr>prefix_tree := (prefix_tree s1)(nm \<mapsto> node2)\<rparr>
           in express_interest e s2 (make_reg_route_cmd e nm) None None reg_param)"

text \<open>The rest of \<open>register\<close>: the reply gives \<open>True\<close>, the four exceptions caught \<open>False\<close>.\<close>

definition register_reply :: "error + name \<times> MetaInfo \<times> content \<Rightarrow> error + bool" where
  "register_reply r =
     (case r of
        Inr reply \<Rightarrow> Inr True
      | Inl (InterestNack reason) \<Rightarrow> Inr False
      | Inl InterestTimeout \<Rightarrow> Inr False
      | Inl InterestCanceled \<Rightarrow> Inr False
      | Inl (ValidationFailure n m c) \<Rightarrow> Inr False
      | Inl ex \<Rightarrow> Inl ex)"

definition unregister :: "NDNApp \<Rightarrow> name \<Rightarrow> (error + unit) \<times> NDNApp" where
  "unregister s nm =
     (case delitem (prefix_tree s) nm of
        Inl ex \<Rightarrow> (Inl ex, s)
      | Inr t \<Rightarrow> (Inr (), s\<lparr>prefix_tree := t\<rparr>))"

text \<open>
  Completing futures. A node method completes futures of its own \<open>pending_list\<close> only,
  and a future that is done stays as it is.
\<close>

fun resolve :: "(future \<rightharpoonup> outcome) \<Rightarrow> (future \<times> outcome) list \<Rightarrow> (future \<rightharpoonup> outcome)" where
  "resolve fs [] = fs"
| "resolve fs ((fut, out) # rest) =
     resolve (case fs fut of None \<Rightarrow> fs(fut \<mapsto> out) | Some done \<Rightarrow> fs) rest"

definition own_futures :: "InterestTreeNode \<Rightarrow> (future \<times> outcome) list \<Rightarrow> (future \<times> outcome) list" where
  "own_futures node res = filter (\<lambda>(fut, out). fut \<in> fst ` set (pending_list node)) res"


text \<open>
  \<open>_on_data\<close>. \<open>InterestTreeNode.invalid\<close> is a parameter: the specification gives two
  accounts of it that do not agree (the entry stays pending; every invalid entry is
  removed), and \<open>_on_data\<close> deletes the entry exactly when it answers true. The first loop
  visits the entries at the prefixes of the name, the second deletes those to clean.
\<close>

definition data_validator_of :: "NDNApp \<Rightarrow> InterestTreeNode \<Rightarrow> validator" where
  "data_validator_of s node = (case validator node of Some v \<Rightarrow> v | None \<Rightarrow> data_validator s)"

definition on_data_entry ::
  "env \<Rightarrow> (InterestTreeNode \<Rightarrow> name \<Rightarrow> MetaInfo \<Rightarrow> content \<Rightarrow> node_result)
     \<Rightarrow> name \<Rightarrow> MetaInfo \<Rightarrow> content \<Rightarrow> SignaturePtrs
     \<Rightarrow> NDNApp \<times> name list \<Rightarrow> name \<times> nat \<Rightarrow> NDNApp \<times> name list" where
  "on_data_entry e invalid nm meta_info cont sig = (\<lambda>(s, clean_list) (prefix, r).
     let node = nodes s r;
         v = data_validator_of s node;
         s1 = s\<lparr>trace := trace s @ [Validated v nm]\<rparr>;
         (node1, res, clean) =
           (if validate e v nm sig then satisfy node nm meta_info cont (prefix \<noteq> nm)
            else invalid node nm meta_info cont);
         s2 = s1\<lparr>nodes := (nodes s1)(r := node1),
                 futures := resolve (futures s1) (own_futures node res)\<rparr>
     in (s2, if clean then clean_list @ [prefix] else clean_list))"

fun del_all :: "NDNApp \<Rightarrow> name list \<Rightarrow> (error + unit) \<times> NDNApp" where
  "del_all s [] = (Inr (), s)"
| "del_all s (prefix # rest) =
     (case delitem (int_tree s) prefix of
        Inl ex \<Rightarrow> (Inl ex, s)
      | Inr t \<Rightarrow> del_all (s\<lparr>int_tree := t\<rparr>) rest)"

definition on_data ::
  "env \<Rightarrow> (InterestTreeNode \<Rightarrow> name \<Rightarrow> MetaInfo \<Rightarrow> content \<Rightarrow> node_result)
     \<Rightarrow> NDNApp \<Rightarrow> name \<Rightarrow> MetaInfo \<Rightarrow> content \<Rightarrow> SignaturePtrs \<Rightarrow> (error + unit) \<times> NDNApp" where
  "on_data e invalid s nm meta_info cont sig =
     (let (s1, clean_list) =
            foldl (on_data_entry e invalid nm meta_info cont sig) (s, []) (prefixes (int_tree s) nm)
      in del_all s1 clean_list)"

text \<open>
  \<open>_on_interest\<close>. Calling a node without a callback raises \<open>TypeError\<close>; the call of the
  handler is recorded, what the handler does is its own.
\<close>

definition log_warning :: "NDNApp \<Rightarrow> log_record \<Rightarrow> NDNApp" where
  "log_warning s r = s\<lparr>trace := trace s @ [Logged r]\<rparr>"

definition on_interest ::
  "env \<Rightarrow> NDNApp \<Rightarrow> name \<Rightarrow> InterestParam \<Rightarrow> content \<Rightarrow> SignaturePtrs \<Rightarrow> (error + unit) \<times> NDNApp" where
  "on_interest e s nm param app_param sig =
     (case longest_prefix (prefix_tree s) nm of
        None \<Rightarrow> (Inr (), log_warning s No_route)
      | Some (prefix, node) \<Rightarrow>
          let checked = (app_param \<noteq> None \<or> signature_info sig \<noteq> None);
              s1 = (if checked then s\<lparr>trace := trace s @ [Params_checked nm]\<rparr> else s)
          in if checked \<and> \<not> params_sha256_checker e nm sig
             then (Inr (), log_warning s1 Drop_malformed)
             else
               let (valid, s2) =
                     (if signature_info sig \<noteq> None then
                        (let v = (case pvalidator node of Some v \<Rightarrow> v | None \<Rightarrow> int_validator s1)
                         in (validate e v nm sig, s1\<lparr>trace := trace s1 @ [Validated v nm]\<rparr>))
                      else (True, s1))
               in if \<not> valid then (Inr (), log_warning s2 Drop_unvalidated)
                  else (case callback node of
                          None \<Rightarrow> (Inl TypeError, s2)
                        | Some func \<Rightarrow>
                            (Inr (), s2\<lparr>trace := trace s2 @ [Called func nm param app_param]\<rparr>)))"




subsection \<open>A concrete application\<close>

text \<open>
  \<open>NDNApp_init\<close> is the state after \<open>__init__\<close>: no entry in either tree, the face not yet
  running, both default validators the digest checker. \<open>connected\<close> is the state once the
  face runs. \<open>env0\<close> is a small environment for the examples: validator 1 rejects and every
  other validator accepts, the final name of an Interest is its name and the packet the
  bytes of the name, a received packet holds one component, and the type numbers are those
  of the NDN packet format.
\<close>

definition sha256_digest_checker :: validator where
  "sha256_digest_checker = 0"

definition NDNApp_init :: NDNApp where
  "NDNApp_init =
     \<lparr>face_running = False, face_sent = [], int_tree = Map.empty,
      nodes = (\<lambda>r. new_InterestTreeNode), node_count = 0, prefix_tree = Map.empty,
      int_validator = sha256_digest_checker, data_validator = sha256_digest_checker,
      futures = Map.empty, future_count = 0, trace = []\<rparr>"

definition connected :: "NDNApp \<Rightarrow> NDNApp" where
  "connected s = s\<lparr>face_running := True\<rparr>"

definition param0 :: InterestParam where
  "param0 = \<lparr>can_be_prefix = False, must_be_fresh = False, nonce = Some 7, lifetime = Some 4000\<rparr>"

definition meta0 :: MetaInfo where
  "meta0 = \<lparr>content_type = 0, freshness_period = None, final_block_id = None\<rparr>"

definition unsigned :: SignaturePtrs where
  "unsigned = \<lparr>signature_info = None, signature_covered_part = [], signature_value_buf = None\<rparr>"

definition signed :: SignaturePtrs where
  "signed = \<lparr>signature_info = Some [0x1B, 0x01, 0x00], signature_covered_part = [],
              signature_value_buf = Some []\<rparr>"

definition env0 :: env where
  "env0 =
     \<lparr>validate = (\<lambda>v nm sig. v \<noteq> 1),
      params_sha256_checker = (\<lambda>nm sig. True),
      make_interest = (\<lambda>nm param app_param. (concat nm, nm)),
      parse_interest = (\<lambda>p with_tl. if p = [] then Inl DecodeError else Inr ([p], param0, None, unsigned)),
      parse_data = (\<lambda>p with_tl. if p = [] then Inl DecodeError else Inr ([p], meta0, None, unsigned)),
      parse_network_nack = (\<lambda>p with_tl. if p = [] then Inl DecodeError else Inr (50, p)),
      make_reg_route_cmd = (\<lambda>nm. [0x08, 0x03, 0x72, 0x69, 0x62] # nm),
      INTEREST = 0x05, DATA = 0x06, LP_PACKET = 0x64\<rparr>"

definition name_a :: name where
  "name_a = [[0x08, 0x01, 0x61]]"

subsection \<open>States and notions of the examples and proofs\<close>

text \<open>
  \<open>registered\<close>, \<open>expressed1\<close> and \<open>expressed2\<close> are states reached from \<open>NDNApp_init\<close>.
  \<open>invalid_keep\<close> and \<open>invalid_remove\<close> are the two accounts of \<open>InterestTreeNode.invalid\<close>
  in the specification: the entry stays pending, or its waiters receive the validation
  failure and the entry is removed.
\<close>

definition registered :: NDNApp where
  "registered = snd (register env0 (connected NDNApp_init) name_a 3 (Some 1) param0)"

definition expressed1 :: NDNApp where
  "expressed1 = snd (express_interest env0 (connected NDNApp_init) name_a None (Some 1) param0)"

definition interest_events ::
  "env \<Rightarrow> NDNApp \<Rightarrow> PrefixTreeNode \<Rightarrow> route \<Rightarrow> name \<Rightarrow> InterestParam \<Rightarrow> content \<Rightarrow> SignaturePtrs
     \<Rightarrow> event list" where
  "interest_events e s node func nm param app_param sig =
     (let has_params = (app_param \<noteq> None);
          is_signed = (signature_info sig \<noteq> None);
          v = (case pvalidator node of Some v \<Rightarrow> v | None \<Rightarrow> int_validator s)
      in if (has_params \<or> is_signed) \<and> \<not> params_sha256_checker e nm sig
           then [Params_checked nm, Logged Drop_malformed]
         else if is_signed \<and> \<not> validate e v nm sig
           then [Params_checked nm, Validated v nm, Logged Drop_unvalidated]
         else if is_signed
           then [Params_checked nm, Validated v nm, Called func nm param app_param]
         else if has_params
           then [Params_checked nm, Called func nm param app_param]
         else [Called func nm param app_param])"


definition invalid_remove :: "InterestTreeNode \<Rightarrow> name \<Rightarrow> MetaInfo \<Rightarrow> content \<Rightarrow> node_result" where
  "invalid_remove node nm meta_info cont =
     (node\<lparr>pending_list := []\<rparr>,
      map (\<lambda>(fut, param). (fut, Failed (ValidationFailure nm meta_info cont))) (pending_list node),
      True)"

definition expressed2 :: NDNApp where
  "expressed2 = snd (express_interest env0 expressed1 name_a None None param0)"

text \<open>
  \<open>wf_app\<close> holds of the states the application reaches: distinct names have distinct
  nodes, every node and every future in use has been created, and a future not yet created
  is not done. \<open>pit_ref\<close> and \<open>pit_waiters\<close> are the node that \<open>setdefault\<close> returns for a
  name and the waiters pending there; \<open>prefixes_upto\<close> is \<open>prefixes\<close> cut at a length.
\<close>

definition prefixes_upto :: "(name \<rightharpoonup> 'v) \<Rightarrow> name \<Rightarrow> nat \<Rightarrow> (name \<times> 'v) list" where
  "prefixes_upto t nm k =
     List.map_filter (\<lambda>n. map_option (Pair (take n nm)) (t (take n nm))) [0..<k]"

definition pit_waiters :: "NDNApp \<Rightarrow> name \<Rightarrow> (future \<times> InterestParam) list" where
  "pit_waiters s nm = (case int_tree s nm of Some r \<Rightarrow> pending_list (nodes s r) | None \<Rightarrow> [])"

definition wf_app :: "NDNApp \<Rightarrow> bool" where
  "wf_app s \<longleftrightarrow>
     (\<forall>n m r. int_tree s n = Some r \<longrightarrow> int_tree s m = Some r \<longrightarrow> n = m)
     \<and> (\<forall>n r. int_tree s n = Some r \<longrightarrow> r < node_count s)
     \<and> (\<forall>n r f. int_tree s n = Some r \<longrightarrow> f \<in> fst ` set (pending_list (nodes s r)) \<longrightarrow> f < future_count s)
     \<and> (\<forall>f. future_count s \<le> f \<longrightarrow> futures s f = None)"

definition pit_ref :: "NDNApp \<Rightarrow> name \<Rightarrow> nat" where
  "pit_ref s nm = (case int_tree s nm of Some r \<Rightarrow> r | None \<Rightarrow> node_count s)"

section \<open>Properties of the component codec\<close>

subsection \<open>TLV numbers\<close>

lemma be_val_snoc: "be_val (bs @ [b]) = be_val bs * 256 + unat b"
  by (simp add: be_val_def)

lemma length_be_bytes: "length (be_bytes k n) = k"
  by (induction k arbitrary: n) simp_all

lemma unat_byte_of_nat_mod: "unat (of_nat (n mod 256) :: byte) = n mod 256"
  by (simp add: unat_of_nat)

lemma be_val_be_bytes: "n < 256 ^ k \<Longrightarrow> be_val (be_bytes k n) = n"
proof (induction k arbitrary: n)
  case 0
  then show ?case by (simp add: be_val_def)
next
  case (Suc k)
  have "n div 256 < 256 ^ k"
    using Suc.prems by (simp add: less_mult_imp_div_less mult.commute)
  then have "be_val (be_bytes k (n div 256)) = n div 256"
    by (rule Suc.IH)
  then show ?case
    by (simp add: be_val_snoc unat_byte_of_nat_mod)
qed

lemma tl_num_bytes_ok:
  assumes "0 \<le> v" "v < 2 ^ 64"
  shows "\<exists>bs. tl_num_bytes v = Inr bs \<and> length bs = get_tl_num_size v"
  using assms by (simp add: tl_num_bytes_def get_tl_num_size_def length_be_bytes)

lemma parse_tl_num_at:
  assumes "0 \<le> v" "v < 2 ^ 64" "tl_num_bytes v = Inr bs"
  shows "parse_tl_num (pre @ bs @ rest) (length pre) = Inr (nat v, length bs)"
proof -
  consider "v < 253" | "253 \<le> v" "v \<le> 0xFFFF" | "0xFFFF < v" "v \<le> 0xFFFFFFFF" | "0xFFFFFFFF < v"
    by linarith
  then show ?thesis
  proof cases
    case 1
    then have bs: "bs = [of_int v]" using assms by (simp add: tl_num_bytes_def)
    have "unat (of_int v :: byte) = nat v"
      using 1 assms(1) by (simp add: unat_eq_nat_uint uint_word_of_int)
    moreover have "nat v < 253" using 1 assms(1) by simp
    ultimately show ?thesis by (simp add: bs parse_tl_num_def nth_append Let_def)
  next
    case 2
    then have bs: "bs = 253 # be_bytes 2 (nat v)" using assms by (simp add: tl_num_bytes_def)
    have "nat v < 256 ^ 2" using 2 assms(1) by simp
    then have "be_val (be_bytes 2 (nat v)) = nat v" by (rule be_val_be_bytes)
    then show ?thesis
      by (simp add: bs parse_tl_num_def nth_append length_be_bytes Let_def del: be_bytes.simps)
  next
    case 3
    then have bs: "bs = 254 # be_bytes 4 (nat v)" using assms by (simp add: tl_num_bytes_def)
    have "nat v < 256 ^ 4" using 3 assms(1) by simp
    then have "be_val (be_bytes 4 (nat v)) = nat v" by (rule be_val_be_bytes)
    then show ?thesis
      by (simp add: bs parse_tl_num_def nth_append length_be_bytes Let_def del: be_bytes.simps)
  next
    case 4
    then have bs: "bs = 255 # be_bytes 8 (nat v)" using assms by (simp add: tl_num_bytes_def)
    have "nat v < 256 ^ 8" using 4 assms by simp
    then have "be_val (be_bytes 8 (nat v)) = nat v" by (rule be_val_be_bytes)
    then show ?thesis
      by (simp add: bs parse_tl_num_def nth_append length_be_bytes Let_def del: be_bytes.simps)
  qed
qed

lemma write_at_replicate0:
  "length bs \<le> n \<Longrightarrow> write_at (replicate n 0) 0 bs = Inr (bs @ replicate (n - length bs) 0)"
  by (simp add: write_at_def)

lemma write_at_after:
  "length bs \<le> length zs \<Longrightarrow>
   write_at (pre @ zs) (length pre) bs = Inr (pre @ bs @ drop (length bs) zs)"
  by (simp add: write_at_def)

lemma from_bytes_canonical:
  assumes t: "tl_num_bytes typ = Inr T" "length T = get_tl_num_size typ"
      and l: "tl_num_bytes (int (length v)) = Inr L" "length L = get_tl_num_size (int (length v))"
  shows "from_bytes v typ = Inr (T @ L @ v)"
proof -
  let ?n = "get_tl_num_size typ + get_tl_num_size (int (length v)) + length v"
  have w1: "write_tl_num typ (replicate ?n 0) 0 = Inr (T @ replicate (?n - length T) 0)"
    using t by (simp add: write_tl_num_def write_at_replicate0)
  have "write_at (T @ replicate (?n - length T) 0) (length T) L
          = Inr (T @ L @ drop (length L) (replicate (?n - length T) 0))"
    by (rule write_at_after) (simp add: t l)
  then have w2: "write_tl_num (int (length v)) (T @ replicate (?n - length T) 0) (get_tl_num_size typ)
          = Inr (T @ L @ drop (length L) (replicate (?n - length T) 0))"
    using l t by (simp add: write_tl_num_def)
  show ?thesis
    using w1 w2 t l by (simp add: from_bytes_def Let_def)
qed

lemma to_str_canonical:
  assumes "0 \<le> typ" "typ < 2 ^ 64" "length v < 2 ^ 64"
      and t: "tl_num_bytes typ = Inr T"
      and l: "tl_num_bytes (int (length v)) = Inr L"
  shows "to_str (T @ L @ v) =
     (if nat typ = TYPE_IMPLICIT_SHA256 then Inr (''sha256digest='' @ hex v)
      else if nat typ = TYPE_PARAMETERS_SHA256 then Inr (''params-sha256='' @ hex v)
      else Inr ((if nat typ \<noteq> TYPE_GENERIC then dec_str (nat typ) @ ''='' else [])
                @ concat (map decode v)))"
proof -
  have p1: "parse_tl_num (T @ L @ v) 0 = Inr (nat typ, length T)"
    using parse_tl_num_at [OF assms(1,2) t, of "[]" "L @ v"] by simp
  have "int (length v) < 2 ^ 64" using assms(3) by simp
  then have p2: "parse_tl_num (T @ L @ v) (length T) = Inr (length v, length L)"
    using parse_tl_num_at [OF _ _ l, of T v] by simp
  show ?thesis
    unfolding to_str_def p1 by (simp add: p2 Let_def)
qed

subsection \<open>Digits\<close>

lemma nat_less_16_cases:
  "(d::nat) < 16 \<Longrightarrow> d \<in> {0, 1, 2, 3, 4, 5, 6, 7, 8, 9, 10, 11, 12, 13, 14, 15}"
  by simp arith

lemma nat_less_10_cases:
  "(d::nat) < 10 \<Longrightarrow> d \<in> {0, 1, 2, 3, 4, 5, 6, 7, 8, 9}"
  by simp arith

lemma hex_upper_digit_val: "d < 16 \<Longrightarrow> digit_val 16 (hex_upper_digit d) = Some d"
  by (drule nat_less_16_cases) (auto simp: hex_upper_digit_def digit_val_def)

lemma hex_lower_digit_val: "d < 16 \<Longrightarrow> digit_val 16 (hex_lower_digit d) = Some d"
  by (drule nat_less_16_cases) (auto simp: hex_lower_digit_def digit_val_def)

lemma digit_char_val: "d < 10 \<Longrightarrow> digit_val 10 (digit_char d) = Some d"
  by (drule nat_less_10_cases) (auto simp: digit_char_def digit_val_def)

lemma hex_upper_digit_CHARSET: "d < 16 \<Longrightarrow> hex_upper_digit d \<in> CHARSET"
  by (drule nat_less_16_cases)
     (auto simp: hex_upper_digit_def CHARSET_def ascii_letters_def ascii_lowercase_def
        ascii_uppercase_def digits_def)

lemma hex_lower_digit_CHARSET: "d < 16 \<Longrightarrow> hex_lower_digit d \<in> CHARSET"
  by (drule nat_less_16_cases)
     (auto simp: hex_lower_digit_def CHARSET_def ascii_letters_def ascii_lowercase_def
        ascii_uppercase_def digits_def)

lemma digit_char_CHARSET: "d < 10 \<Longrightarrow> digit_char d \<in> CHARSET"
  by (drule nat_less_10_cases)
     (auto simp: digit_char_def CHARSET_def ascii_letters_def ascii_lowercase_def
        ascii_uppercase_def digits_def)

lemma hex_upper_digit_plain:
  "d < 16 \<Longrightarrow> hex_upper_digit d \<notin> {CHR ''x'', CHR ''X'', CHR ''-'', CHR ''+'', CHR ''_'', CHR ''%'', CHR ''=''}"
  by (drule nat_less_16_cases) (auto simp: hex_upper_digit_def)

lemma hex_lower_digit_plain:
  "d < 16 \<Longrightarrow> hex_lower_digit d \<notin> {CHR ''%'', CHR ''=''}"
  by (drule nat_less_16_cases) (auto simp: hex_lower_digit_def)

lemma digit_char_plain:
  "d < 10 \<Longrightarrow> digit_char d \<notin> {CHR ''-'', CHR ''+'', CHR ''_'', CHR ''%'', CHR ''='', CHR ''s'', CHR ''p''}"
  by (drule nat_less_10_cases) (auto simp: digit_char_def)

lemma unat_byte_div16: "unat (b :: byte) div 16 < 16"
proof -
  have "unat b < 256" using unsigned_less [of b] by simp
  then show ?thesis by simp
qed

lemma ord_byte_chr: "ord_byte (chr b) = b"
proof -
  have "unat b < 256" using unsigned_less [of b] by simp
  then show ?thesis by (simp add: ord_byte_def chr_def)
qed

lemma byte_of_nibbles: "(word_of_nat (16 * (unat b div 16) + unat b mod 16) :: byte) = b"
  by simp

lemma py_int_format_02X: "py_int 16 (take 2 (format_02X b @ rest)) = Inr (int (unat b))"
proof -
  let ?h = "hex_upper_digit (unat b div 16)" and ?l = "hex_upper_digit (unat b mod 16)"
  have h: "digit_val 16 ?h = Some (unat b div 16)" "?h \<noteq> CHR ''-''" "?h \<noteq> CHR ''+''"
    using hex_upper_digit_val [OF unat_byte_div16, of b]
          hex_upper_digit_plain [OF unat_byte_div16, of b] by auto
  have l: "digit_val 16 ?l = Some (unat b mod 16)" "?l \<noteq> CHR ''x''" "?l \<noteq> CHR ''X''"
    using hex_upper_digit_val [of "unat b mod 16"] hex_upper_digit_plain [of "unat b mod 16"]
    by auto
  show ?thesis
    using h l by (simp add: format_02X_def py_int_def py_body_def py_unsigned_def)
qed

lemma fromhex_hex: "fromhex (hex v) = Inr v"
proof (induction v)
  case Nil
  then show ?case by (simp add: hex_def)
next
  case (Cons b v)
  have "hex (b # v) = hex_lower_digit (unat b div 16) # hex_lower_digit (unat b mod 16) # hex v"
    by (simp add: hex_def)
  then show ?case
    using Cons hex_lower_digit_val [OF unat_byte_div16, of b]
      hex_lower_digit_val [of "unat b mod 16"]
    by simp
qed

lemma dec_str_digits: "\<forall>c\<in>set (dec_str n). is_dec_digit c"
proof (induction n rule: dec_str.induct)
  case (1 n)
  show ?case
  proof (cases "n < 10")
    case True
    then show ?thesis by (subst dec_str.simps) (auto simp: is_dec_digit_def)
  next
    case False
    have "n mod 10 < 10" by simp
    then have "is_dec_digit (digit_char (n mod 10))" unfolding is_dec_digit_def by blast
    with False 1 show ?thesis by (subst dec_str.simps) auto
  qed
qed

lemma dec_str_not_Nil: "dec_str n \<noteq> []"
  by (subst dec_str.simps) simp

lemma dec_fold_dec_str: "dec_fold 0 (dec_str n) = n"
proof (induction n rule: dec_str.induct)
  case (1 n)
  show ?case
  proof (cases "n < 10")
    case True
    then show ?thesis by (subst dec_str.simps) (simp add: dec_fold_def digit_char_val)
  next
    case False
    have "dec_fold 0 (dec_str (n div 10)) = n div 10" using 1 False by simp
    then show ?thesis
      using False by (subst dec_str.simps) (simp add: dec_fold_def digit_char_val)
  qed
qed

lemma is_dec_digit_val: "is_dec_digit c \<Longrightarrow> \<exists>d. digit_val 10 c = Some d"
  by (auto simp: is_dec_digit_def digit_char_val)

lemma is_dec_digit_plain: "is_dec_digit c \<Longrightarrow> c \<noteq> CHR ''_'' \<and> c \<noteq> CHR ''-'' \<and> c \<noteq> CHR ''+''"
  using digit_char_plain by (auto simp: is_dec_digit_def)

lemma py_digits_dec: "\<forall>c\<in>set s. is_dec_digit c \<Longrightarrow> py_digits 10 acc s = Some (dec_fold acc s)"
proof (induction "10::nat" acc s rule: py_digits.induct)
  case (1 acc)
  then show ?case by (simp add: dec_fold_def)
next
  case (2 acc c)
  then obtain d where "digit_val 10 c = Some d" using is_dec_digit_val by auto
  then show ?case by (simp add: dec_fold_def)
next
  case (3 acc c d ds)
  from 3(3) obtain v where v: "digit_val 10 c = Some v" using is_dec_digit_val by auto
  have c: "c \<noteq> CHR ''_''" using 3(3) is_dec_digit_plain by auto
  have "py_digits 10 (acc * 10 + v) (d # ds) = Some (dec_fold (acc * 10 + v) (d # ds))"
    using 3(2) [OF c v] 3(3) by simp
  then show ?case using c v by (simp add: dec_fold_def)
qed

lemma py_int_dec_str: "py_int 10 (dec_str n) = Inr (int n)"
proof -
  obtain c cs where s: "dec_str n = c # cs" using dec_str_not_Nil by (cases "dec_str n") auto
  have dig: "is_dec_digit c" "\<forall>x\<in>set cs. is_dec_digit x"
    using dec_str_digits [of n] by (simp_all add: s)
  obtain v where v: "digit_val 10 c = Some v" using dig is_dec_digit_val by auto
  have "py_unsigned 10 (c # cs) = Some (dec_fold v cs)"
    using v py_digits_dec [OF dig(2)] by (simp add: py_unsigned_def)
  moreover have "dec_fold v cs = dec_fold 0 (c # cs)" using v by (simp add: dec_fold_def)
  moreover have "dec_fold 0 (c # cs) = n" using dec_fold_dec_str [of n] by (simp add: s)
  ultimately have "py_body 10 (c # cs) = Some n" by (simp add: py_body_def)
  then show ?thesis
    using is_dec_digit_plain [OF dig(1)] by (simp add: py_int_def s)
qed

subsection \<open>The two loops of \<open>from_str\<close>\<close>

lemma unreserved_iff: "c \<in> unreserved \<longleftrightarrow> c \<in> CHARSET \<and> c \<notin> {CHR ''%'', CHR ''=''}"
  by (auto simp: unreserved_def CHARSET_def ascii_letters_def ascii_lowercase_def
        ascii_uppercase_def digits_def)

lemma eq_in_CHARSET: "CHR ''='' \<in> CHARSET"
  by (simp add: CHARSET_def)

lemma check_charset_plain:
  "\<forall>c\<in>set s. plain c \<Longrightarrow>
   check_charset s i pc t = Inr (pc + count_list s CHR ''%'', t)"
  by (induction s arbitrary: i pc) (auto simp: plain_def Let_def)

lemma check_charset_typed:
  "\<forall>c\<in>set a. plain c \<Longrightarrow> \<forall>c\<in>set b. plain c \<Longrightarrow>
   check_charset (a @ CHR ''='' # b) i pc None
     = Inr (pc + count_list a CHR ''%'' + count_list b CHR ''%'', Some (i + length a))"
proof (induction a arbitrary: i pc)
  case Nil
  then show ?case by (simp add: check_charset_plain eq_in_CHARSET)
next
  case (Cons c a)
  then show ?case by (auto simp: plain_def Let_def)
qed

lemma decode_cases:
  "decode b = [chr b] \<and> chr b \<noteq> CHR ''%'' \<and> plain (chr b)
   \<or> decode b = CHR ''%'' # format_02X b"
  by (auto simp: decode_def plain_def Let_def)

lemma format_02X_plain: "\<forall>c\<in>set (format_02X b). plain c \<and> c \<noteq> CHR ''%''"
  using hex_upper_digit_CHARSET [OF unat_byte_div16, of b] hex_upper_digit_CHARSET [of "unat b mod 16"]
        hex_upper_digit_plain [OF unat_byte_div16, of b] hex_upper_digit_plain [of "unat b mod 16"]
  by (auto simp: format_02X_def plain_def)

lemma percent_plain: "plain CHR ''%''"
  by (simp add: plain_def CHARSET_def)

lemma decode_plain: "\<forall>c\<in>set (decode b). plain c"
proof (rule disjE [OF decode_cases [of b]])
  assume "decode b = [chr b] \<and> chr b \<noteq> CHR ''%'' \<and> plain (chr b)"
  then show ?thesis by simp
next
  assume d: "decode b = CHR ''%'' # format_02X b"
  show ?thesis unfolding d using format_02X_plain [of b] percent_plain by simp
qed

lemma format_02X_count: "count_list (format_02X b) CHR ''%'' = 0"
  using hex_upper_digit_plain [OF unat_byte_div16, of b] hex_upper_digit_plain [of "unat b mod 16"]
  by (simp add: format_02X_def)

lemma decode_length: "length (decode b) = 1 + 2 * count_list (decode b) CHR ''%''"
proof (rule disjE [OF decode_cases [of b]])
  assume "decode b = [chr b] \<and> chr b \<noteq> CHR ''%'' \<and> plain (chr b)"
  then show ?thesis by simp
next
  assume d: "decode b = CHR ''%'' # format_02X b"
  show ?thesis unfolding d by (simp add: format_02X_count) (simp add: format_02X_def)
qed

lemma count_list_append': "count_list (xs @ ys) x = count_list xs x + count_list ys x"
  by (induction xs) auto

lemma decode_all_plain: "\<forall>c\<in>set (concat (map decode v)). plain c"
  using decode_plain by auto

lemma decode_all_length:
  "length (concat (map decode v)) = length v + 2 * count_list (concat (map decode v)) CHR ''%''"
proof (induction v)
  case Nil
  then show ?case by simp
next
  case (Cons b v)
  then show ?case using decode_length [of b] by (simp add: count_list_append')
qed

lemma take_Suc_update: "pos < length view \<Longrightarrow> take (Suc pos) (view[pos := b]) = take pos view @ [b]"
  by (simp add: take_Suc_conv_app_nth)

lemma encode_loop_decode:
  "length view = pos + length v \<Longrightarrow>
   encode_loop (concat (map decode v)) pos view = Inr (take pos view @ v)"
proof (induction v arbitrary: pos view)
  case Nil
  then show ?case by simp
next
  case (Cons b v)
  have pos: "pos < length view" using Cons.prems by simp
  have len: "length (view[pos := b]) = Suc pos + length v" using Cons.prems by simp
  have IH: "encode_loop (concat (map decode v)) (Suc pos) (view[pos := b])
             = Inr (take pos view @ b # v)"
    using Cons.IH [OF len] take_Suc_update [OF pos] by simp
  from decode_cases [of b] show ?case
  proof
    assume "decode b = [chr b] \<and> chr b \<noteq> CHR ''%'' \<and> plain (chr b)"
    then show ?thesis using pos IH by (simp add: ord_byte_chr)
  next
    assume d: "decode b = CHR ''%'' # format_02X b"
    have dr: "drop 2 (format_02X b @ concat (map decode v)) = concat (map decode v)"
      by (simp add: format_02X_def)
    have "unat b < 256" using unsigned_less [of b] by simp
    then have rng: "\<not> (int (unat b) < 0 \<or> 255 < int (unat b))" by linarith
    show ?thesis
      using pos IH rng
      by (simp add: d py_int_format_02X dr del: take_append drop_append)
  qed
qed

lemma write_header:
  assumes t: "tl_num_bytes typ = Inr T" "length T = get_tl_num_size typ"
      and l: "tl_num_bytes (int n) = Inr L" "length L = get_tl_num_size (int n)"
  shows "\<exists>R. write_tl_num typ (replicate (get_tl_num_size typ + get_tl_num_size (int n) + n) 0) 0 = Inr R
           \<and> write_tl_num (int n) R (get_tl_num_size typ) = Inr (T @ L @ replicate n 0)"
proof -
  let ?n = "get_tl_num_size typ + get_tl_num_size (int n) + n"
  have w1: "write_tl_num typ (replicate ?n 0) 0 = Inr (T @ replicate (?n - length T) 0)"
    using t by (simp add: write_tl_num_def write_at_replicate0)
  have "write_at (T @ replicate (?n - length T) 0) (length T) L
          = Inr (T @ L @ drop (length L) (replicate (?n - length T) 0))"
    by (rule write_at_after) (simp add: t l)
  then have w2: "write_tl_num (int n) (T @ replicate (?n - length T) 0) (get_tl_num_size typ)
          = Inr (T @ L @ replicate n 0)"
    using l t by (simp add: write_tl_num_def)
  show ?thesis using w1 w2 by blast
qed

lemma from_str_body_decode:
  assumes t: "tl_num_bytes typ = Inr T" "length T = get_tl_num_size typ"
      and l: "tl_num_bytes (int (length v)) = Inr L" "length L = get_tl_num_size (int (length v))"
      and len: "int (length val) - off - 1 - 2 * int pc = int (length v)"
      and rest: "drop (nat (off + 1)) val = concat (map decode v)"
  shows "from_str_body val typ off pc = Inr (T @ L @ v)"
proof -
  obtain R where
    w1: "write_tl_num typ (replicate (get_tl_num_size typ + get_tl_num_size (int (length v)) + length v) 0) 0 = Inr R"
    and w2: "write_tl_num (int (length v)) R (get_tl_num_size typ) = Inr (T @ L @ replicate (length v) 0)"
    using write_header [OF t l] by blast
  have "encode_loop (concat (map decode v)) (length T + length L) (T @ L @ replicate (length v) 0)
        = Inr (take (length T + length L) (T @ L @ replicate (length v) 0) @ v)"
    by (rule encode_loop_decode) simp
  then have e: "encode_loop (concat (map decode v)) (get_tl_num_size typ + get_tl_num_size (int (length v)))
          (T @ L @ replicate (length v) 0) = Inr (T @ L @ v)"
    using t l by simp
  show ?thesis
    unfolding from_str_body_def Let_def len rest
    by (simp add: w1 w2 e)
qed

lemma hex_eq_lower_hex: "hex v = concat (map lower_hex v)"
  by (induction v) (simp_all add: hex_def lower_hex_def hex_lower_digit_def)

lemma decode_eq_spec: "decode b = (if chr b \<in> unreserved then [chr b] else percent_XX b)"
  by (simp add: decode_def unreserved_iff percent_XX_def format_02X_def hex_upper_digit_def Let_def)

lemma hex_plain: "\<forall>c\<in>set (hex v). plain c"
proof -
  have "plain (hex_lower_digit (unat b div 16)) \<and> plain (hex_lower_digit (unat b mod 16))" for b :: byte
    using hex_lower_digit_CHARSET [OF unat_byte_div16, of b] hex_lower_digit_CHARSET [of "unat b mod 16"]
        hex_lower_digit_plain [OF unat_byte_div16, of b] hex_lower_digit_plain [of "unat b mod 16"]
    by (simp add: plain_def)
  then show ?thesis by (auto simp: hex_def)
qed

lemma dec_str_plain: "\<forall>c\<in>set (dec_str n). plain c"
  using dec_str_digits [of n] digit_char_CHARSET digit_char_plain
  by (fastforce simp: is_dec_digit_def plain_def)

lemma dec_str_no_percent: "count_list (dec_str n) CHR ''%'' = 0"
proof -
  have "CHR ''%'' \<notin> set (dec_str n)"
    using dec_str_digits [of n] digit_char_plain by (fastforce simp: is_dec_digit_def)
  then show ?thesis by (simp add: count_list_0_iff)
qed

lemma dec_str_not_digest: "dec_str n \<noteq> ''sha256digest''" "dec_str n \<noteq> ''params-sha256''"
proof -
  have "CHR ''s'' \<notin> set (dec_str n)"
    using dec_str_digits [of n] digit_char_plain by (fastforce simp: is_dec_digit_def)
  then show "dec_str n \<noteq> ''sha256digest''" "dec_str n \<noteq> ''params-sha256''" by auto
qed

lemma from_str_digest1:
  assumes "from_bytes v 1 = Inr c"
  shows "from_str (''sha256digest='' @ hex v) = Inr c"
proof -
  have a: "\<forall>c\<in>set ''sha256digest''. plain c"
    by (simp add: plain_def CHARSET_def ascii_letters_def ascii_lowercase_def ascii_uppercase_def digits_def)
  have cc: "check_charset (''sha256digest'' @ CHR ''='' # hex v) 0 0 None
        = Inr (0 + count_list ''sha256digest'' CHR ''%'' + count_list (hex v) CHR ''%'', Some (0 + length ''sha256digest''))"
    by (rule check_charset_typed [OF a hex_plain])
  show ?thesis
    using cc assms by (simp add: from_str_def fromhex_hex TYPE_IMPLICIT_SHA256_def)
qed

lemma from_str_digest2:
  assumes "from_bytes v 2 = Inr c"
  shows "from_str (''params-sha256='' @ hex v) = Inr c"
proof -
  have a: "\<forall>c\<in>set ''params-sha256''. plain c"
    by (simp add: plain_def CHARSET_def ascii_letters_def ascii_lowercase_def ascii_uppercase_def digits_def)
  have cc: "check_charset (''params-sha256'' @ CHR ''='' # hex v) 0 0 None
        = Inr (0 + count_list ''params-sha256'' CHR ''%'' + count_list (hex v) CHR ''%'', Some (0 + length ''params-sha256''))"
    by (rule check_charset_typed [OF a hex_plain])
  show ?thesis
    using cc assms by (simp add: from_str_def fromhex_hex TYPE_PARAMETERS_SHA256_def)
qed

lemma decode_not_Nil: "decode b \<noteq> []"
  using decode_cases [of b] by auto

lemma from_str_generic:
  assumes t: "tl_num_bytes 8 = Inr T" "length T = get_tl_num_size 8"
      and l: "tl_num_bytes (int (length v)) = Inr L" "length L = get_tl_num_size (int (length v))"
  shows "from_str (concat (map decode v)) = Inr (T @ L @ v)"
proof (cases v)
  case Nil
  then show ?thesis using t l by (simp add: from_str_def tl_num_bytes_def)
next
  case (Cons b bs)
  let ?val = "concat (map decode v)"
  have ne: "?val \<noteq> []" using Cons decode_not_Nil by simp
  have cc: "check_charset ?val 0 0 None = Inr (0 + count_list ?val CHR ''%'', None)"
    by (rule check_charset_plain [OF decode_all_plain])
  have len: "int (length ?val) - (- 1) - 1 - 2 * int (count_list ?val CHR ''%'') = int (length v)"
    using decode_all_length [of v] by simp
  have body: "from_str_body ?val 8 (- 1) (count_list ?val CHR ''%'') = Inr (T @ L @ v)"
    by (rule from_str_body_decode [OF t l len]) simp
  show ?thesis
    by (simp add: from_str_def TYPE_GENERIC_def ne cc body del: concat_eq_Nil_conv)
qed

lemma from_str_typed:
  assumes t: "tl_num_bytes (int typ) = Inr T" "length T = get_tl_num_size (int typ)"
      and l: "tl_num_bytes (int (length v)) = Inr L" "length L = get_tl_num_size (int (length v))"
  shows "from_str (dec_str typ @ ''='' @ concat (map decode v)) = Inr (T @ L @ v)"
proof -
  let ?a = "dec_str typ" and ?b = "concat (map decode v)"
  let ?val = "?a @ CHR ''='' # ?b"
  have cc: "check_charset ?val 0 0 None
      = Inr (0 + count_list ?a CHR ''%'' + count_list ?b CHR ''%'', Some (0 + length ?a))"
    by (rule check_charset_typed [OF dec_str_plain decode_all_plain])
  have len: "int (length ?val) - int (length ?a) - 1 - 2 * int (count_list ?b CHR ''%'') = int (length v)"
    using decode_all_length [of v] by simp
  have body: "from_str_body ?val (int typ) (int (length ?a)) (count_list ?b CHR ''%'') = Inr (T @ L @ v)"
    by (rule from_str_body_decode [OF t l len]) (simp add: nat_add_distrib)
  have ne: "?val \<noteq> []" by simp
  show ?thesis
    using ne cc body dec_str_not_digest [of "typ"]
    by (simp add: from_str_def dec_str_no_percent py_int_dec_str)
qed

subsection \<open>Round trip through the URI form\<close>

text \<open>
  Claim C4. For a component in canonical TLV form (the result of \<open>from_bytes\<close> on a type
  and a value that the TLV numbers can hold) \<open>to_str\<close> gives the URI form that the
  specification words: the digest types as their prefix and lower-case hexadecimal digits,
  any other type but the generic one as \<open><type>=\<close>, every byte outside the unreserved set
  as \<open>%XX\<close> in upper case. \<open>from_str\<close> of that string is the component again, byte for
  byte; for the generic component of no bytes the string is empty.
\<close>

theorem component_uri_roundtrip:
  assumes "typ < 2 ^ 64" "length v < 2 ^ 64"
  shows "\<exists>c. from_bytes v (int typ) = Inr c
           \<and> to_str c = Inr (uri_segment typ v)
           \<and> from_str (uri_segment typ v) = Inr c"
proof -
  have r: "0 \<le> int typ" "int typ < 2 ^ 64" "0 \<le> int (length v)" "int (length v) < 2 ^ 64"
    using assms by simp_all
  obtain T where T: "tl_num_bytes (int typ) = Inr T" "length T = get_tl_num_size (int typ)"
    using tl_num_bytes_ok [OF r(1,2)] by blast
  obtain L where L: "tl_num_bytes (int (length v)) = Inr L" "length L = get_tl_num_size (int (length v))"
    using tl_num_bytes_ok [OF r(3,4)] by blast
  have fb: "from_bytes v (int typ) = Inr (T @ L @ v)"
    by (rule from_bytes_canonical [OF T L])
  have ts: "to_str (T @ L @ v) = Inr (uri_segment typ v)"
    using to_str_canonical [OF r(1,2) assms(2) T(1) L(1)]
    by (simp add: uri_segment_def hex_eq_lower_hex decode_eq_spec [abs_def]
          TYPE_IMPLICIT_SHA256_def TYPE_PARAMETERS_SHA256_def TYPE_GENERIC_def)
  have fs: "from_str (uri_segment typ v) = Inr (T @ L @ v)"
  proof -
    consider "typ = 1" | "typ = 2" | "typ = 8" | "typ \<noteq> 1" "typ \<noteq> 2" "typ \<noteq> 8" by blast
    then show ?thesis
    proof cases
      case 1
      then show ?thesis
        using from_str_digest1 [of v "T @ L @ v"] fb
        by (simp add: uri_segment_def hex_eq_lower_hex [symmetric])
    next
      case 2
      then show ?thesis
        using from_str_digest2 [of v "T @ L @ v"] fb
        by (simp add: uri_segment_def hex_eq_lower_hex [symmetric])
    next
      case 3
      then show ?thesis
        using from_str_generic [OF _ _ L, of T] T
        by (simp add: uri_segment_def decode_eq_spec [abs_def])
    next
      case 4
      then show ?thesis
        using from_str_typed [OF T L]
        by (simp add: uri_segment_def decode_eq_spec [abs_def])
    qed
  qed
  show ?thesis using fb ts fs by blast
qed

theorem component_uri_roundtrip_witness:
  "from_bytes [] 8 = Inr [0x08, 0x00]
   \<and> to_str [0x08, 0x00] = Inr []
   \<and> from_str [] = Inr [0x08, 0x00]
   \<and> from_bytes [0x41, 0x25, 0xFF] 300 = Inr [0xFD, 0x01, 0x2C, 0x03, 0x41, 0x25, 0xFF]
   \<and> to_str [0xFD, 0x01, 0x2C, 0x03, 0x41, 0x25, 0xFF] = Inr ''300=A%25%FF''
   \<and> from_str ''300=A%25%FF'' = Inr [0xFD, 0x01, 0x2C, 0x03, 0x41, 0x25, 0xFF]"
proof -
  have u1: "uri_segment 8 [] = []"
    by (simp add: uri_segment_def)
  have u2: "uri_segment 300 [0x41, 0x25, 0xFF] = ''300=A%25%FF''"
    by code_simp
  have f1: "from_bytes [] 8 = Inr [0x08, 0x00]" by code_simp
  have f2: "from_bytes [0x41, 0x25, 0xFF] 300 = Inr [0xFD, 0x01, 0x2C, 0x03, 0x41, 0x25, 0xFF]"
    by code_simp
  show ?thesis
    using component_uri_roundtrip [of 8 "[]"] component_uri_roundtrip [of 300 "[0x41, 0x25, 0xFF]"]
    by (simp add: u1 u2 f1 f2)
qed

section \<open>What \<open>from_str\<close> rejects\<close>

text \<open>
  A character outside \<open>CHARSET\<close> and a second \<open>=\<close> are rejected by the first loop.
\<close>

lemma check_charset_outside:
  "c \<in> set val \<Longrightarrow> c \<notin> CHARSET \<Longrightarrow> check_charset val i pc t = Inl ValueError"
proof (induction val arbitrary: i pc t)
  case Nil
  then show ?case by simp
next
  case (Cons ch rest)
  show ?case
  proof (cases "ch \<in> CHARSET")
    case False
    then show ?thesis by simp
  next
    case True
    then have "c \<in> set rest" using Cons.prems by auto
    then have "check_charset rest i' pc' t' = Inl ValueError" for i' pc' t'
      using Cons.IH Cons.prems(2) by blast
    then show ?thesis using True by (simp add: Let_def split: option.split)
  qed
qed

lemma from_str_outside_CHARSET:
  assumes "c \<in> set val" "c \<notin> CHARSET"
  shows "from_str val = Inl ValueError"
proof -
  have "val \<noteq> []" using assms(1) by auto
  then show ?thesis
    using check_charset_outside [OF assms, of 0 0 None] by (simp add: from_str_def)
qed

lemma check_charset_second_eq:
  "CHR ''='' \<in> set val \<Longrightarrow> check_charset val i pc (Some k) = Inl ValueError"
proof (induction val arbitrary: i pc)
  case Nil
  then show ?case by simp
next
  case (Cons ch rest)
  then show ?case by (auto simp: Let_def)
qed

lemma check_charset_two_eq:
  "check_charset (a @ CHR ''='' # b @ CHR ''='' # c) i pc None = Inl ValueError"
proof (induction a arbitrary: i pc)
  case Nil
  then show ?case by (simp add: Let_def check_charset_second_eq)
next
  case (Cons ch rest)
  then show ?case by (simp add: Let_def check_charset_second_eq)
qed

lemma from_str_two_eq:
  "from_str (a @ CHR ''='' # b @ CHR ''='' # c) = Inl ValueError"
  by (simp add: from_str_def check_charset_two_eq)

text \<open>
  Claim C7. \<open>from_str\<close> is to fail on every input with a malformed percent-escape. The
  escape \<open>%-0\<close> is not two hexadecimal digits, but \<open>int('-0', 16)\<close> is 0, and \<open>from_str\<close>
  returns the generic component of the single byte 0.
\<close>

theorem from_str_signed_escape: "from_str ''%-0'' = Inr [0x08, 0x01, 0x00]"
  by code_simp

lemma from_str_percent_alone: "from_str ''%'' = Inl ValueError"
  by code_simp

lemma from_str_short_escape: "from_str ''a%4'' = Inl ValueError"
  by code_simp

lemma from_str_bad_hex: "from_str ''%zz'' = Inl ValueError"
  by code_simp

section \<open>Properties of the application\<close>

text \<open>
  Claim C8. While the face is not running, \<open>put_raw_packet\<close> and \<open>express_interest\<close> raise
  \<open>NetworkError\<close> and leave the application as it was: no Interest is built, no entry
  enters the interest tree, nothing is given to the face.
\<close>

theorem not_running_NetworkError:
  assumes "\<not> face_running s"
  shows "put_raw_packet s data_v = (Inl NetworkError, s)
         \<and> express_interest e s nm app_param v param = (Inl NetworkError, s)"
  using assms by (simp add: put_raw_packet_def express_interest_def)

theorem not_running_NetworkError_witness:
  "\<not> face_running NDNApp_init
   \<and> put_raw_packet NDNApp_init [0x06, 0x00] = (Inl NetworkError, NDNApp_init)
   \<and> express_interest env0 NDNApp_init name_a None None param0 = (Inl NetworkError, NDNApp_init)"
  using not_running_NetworkError [of NDNApp_init "[0x06, 0x00]" env0 name_a None None param0]
  by (simp add: NDNApp_init_def)

text \<open>
  Claim C6. \<open>register\<close> at a prefix whose node has a callback raises the \<open>ValueError\<close> of
  the duplicated registration and leaves the application as it was, the handler and the
  validator of the first registration with it.
\<close>

theorem register_duplicate:
  assumes "prefix_tree s nm = Some node" "callback node = Some func0"
  shows "register e s nm func v reg_param = (Inl ValueError, s)"
  using assms by (simp add: register_def)

lemma registered_prefix_tree:
  "prefix_tree registered name_a = Some \<lparr>callback = Some 3, pvalidator = Some 1\<rparr>"
  by (simp add: registered_def register_def express_interest_def connected_def NDNApp_init_def
      new_PrefixTreeNode_def env0_def Let_def split: prod.split)

theorem register_duplicate_witness:
  "prefix_tree registered name_a = Some \<lparr>callback = Some 3, pvalidator = Some 1\<rparr>
   \<and> register env0 registered name_a 4 (Some 2) param0 = (Inl ValueError, registered)"
  using register_duplicate [of registered name_a "\<lparr>callback = Some 3, pvalidator = Some 1\<rparr>" 3 env0 4 "Some 2" param0]
  by (simp add: registered_prefix_tree)

text \<open>
  Claim C9. \<open>express_interest\<close> stores its \<open>validator\<close> argument in the node of the final
  name whatever the node held: on an entry that is already pending the new waiter is
  appended and the validator of the entry is the one of the later call, and with \<open>None\<close>
  \<open>_on_data\<close> takes the default data validator.
\<close>

theorem express_interest_stores_validator:
  assumes run: "face_running s"
      and mk: "make_interest e nm param app_param = (interest, final_name)"
  shows "\<exists>w s'. express_interest e s nm app_param v param = (Inr w, s')
           \<and> w_name w = final_name
           \<and> int_tree s' final_name = Some (w_node w)
           \<and> validator (nodes s' (w_node w)) = v
           \<and> data_validator_of s' (nodes s' (w_node w))
               = (case v of Some x \<Rightarrow> x | None \<Rightarrow> data_validator s)
           \<and> (\<forall>r. int_tree s final_name = Some r \<longrightarrow>
                  w_node w = r
                  \<and> pending_list (nodes s' r) = pending_list (nodes s r) @ [(future_count s, param)])"
proof (cases "int_tree s final_name")
  case None
  then show ?thesis
    using run mk
    by (simp add: express_interest_def Let_def data_validator_of_def append_interest_def split: option.split)
next
  case (Some r)
  then show ?thesis
    using run mk
    by (simp add: express_interest_def Let_def data_validator_of_def append_interest_def split: option.split)
qed

lemma expressed1_entry:
  "face_running expressed1 \<and> int_tree expressed1 name_a = Some 0
   \<and> validator (nodes expressed1 0) = Some 1
   \<and> pending_list (nodes expressed1 0) = [(0, param0)]
   \<and> future_count expressed1 = 1
   \<and> data_validator expressed1 = sha256_digest_checker
   \<and> face_sent expressed1 = [[0x08, 0x01, 0x61]]"
  by (simp add: expressed1_def express_interest_def connected_def NDNApp_init_def env0_def
      Let_def append_interest_def new_InterestTreeNode_def name_a_def)

theorem express_interest_stores_validator_witness:
  "validator (nodes expressed1 0) = Some 1
   \<and> (\<exists>w s'. express_interest env0 expressed1 name_a None None param0 = (Inr w, s')
         \<and> w_node w = 0
         \<and> int_tree s' name_a = Some 0
         \<and> validator (nodes s' 0) = None
         \<and> data_validator_of s' (nodes s' 0) = sha256_digest_checker
         \<and> pending_list (nodes s' 0) = [(0, param0), (1, param0)])"
proof -
  have mk: "make_interest env0 name_a param0 None = (concat name_a, name_a)"
    by (simp add: env0_def)
  show ?thesis
    using express_interest_stores_validator [of expressed1 env0 name_a param0 None "concat name_a" name_a None, OF _ mk]
      expressed1_entry
    by auto
qed

text \<open>
  Claim C3. An Interest under a registered prefix: with application parameters or a
  signature the digest check runs first, and its failure drops the Interest before any
  validator or handler is called; with a signature the validator of the registration, or
  the default one, must accept; without parameters and signature nothing is validated;
  an accepted Interest calls the handler once with the name, the parameters and the
  application parameters. \<open>interest_events\<close> lists these calls.
\<close>

theorem on_interest_dispatch:
  assumes "longest_prefix (prefix_tree s) nm = Some (prefix, node)"
      and "callback node = Some func"
  shows "on_interest e s nm param app_param sig
         = (Inr (), s\<lparr>trace := trace s @ interest_events e s node func nm param app_param sig\<rparr>)"
  using assms
  by (auto simp: on_interest_def interest_events_def log_warning_def Let_def split: option.splits)

lemma registered_longest_prefix:
  "longest_prefix (prefix_tree registered) (name_a @ [[0x08, 0x01, 0x62]])
     = Some (name_a, \<lparr>callback = Some 3, pvalidator = Some 1\<rparr>)"
  by (simp add: longest_prefix_def prefixes_def registered_def register_def express_interest_def
      connected_def NDNApp_init_def new_PrefixTreeNode_def env0_def Let_def name_a_def
      List.map_filter_def upt_rec split: prod.split)

theorem on_interest_dispatch_witness:
  "longest_prefix (prefix_tree registered) (name_a @ [[0x08, 0x01, 0x62]])
     = Some (name_a, \<lparr>callback = Some 3, pvalidator = Some 1\<rparr>)
   \<and> on_interest env0 registered (name_a @ [[0x08, 0x01, 0x62]]) param0 None unsigned
       = (Inr (), registered\<lparr>trace := trace registered
            @ [Called 3 (name_a @ [[0x08, 0x01, 0x62]]) param0 None]\<rparr>)
   \<and> on_interest env0 registered (name_a @ [[0x08, 0x01, 0x62]]) param0 None signed
       = (Inr (), registered\<lparr>trace := trace registered
            @ [Params_checked (name_a @ [[0x08, 0x01, 0x62]]),
               Validated 1 (name_a @ [[0x08, 0x01, 0x62]]), Logged Drop_unvalidated]\<rparr>)"
  using on_interest_dispatch [OF registered_longest_prefix, of 3 env0 param0 None unsigned]
        on_interest_dispatch [OF registered_longest_prefix, of 3 env0 param0 None signed]
  by (simp add: registered_longest_prefix interest_events_def unsigned_def signed_def env0_def)




text \<open>
  Claim C5. When the wait of a pending future ends by the timeout, \<open>_wait_for_data\<close>
  raises \<open>InterestTimeout\<close>; the entry leaves the interest tree exactly when no other
  waiter is left on it, and stays with the other waiters otherwise.
\<close>

theorem wait_for_data_expiry:
  assumes "futures s fut = None" "int_tree s nm = Some r"
  shows "\<exists>s'. wait_for_data s fut lifetime_v nm r False = (Inl InterestTimeout, s')
           \<and> (int_tree s' nm = None
                \<longleftrightarrow> filter (\<lambda>(f, p). f \<noteq> fut) (pending_list (nodes s r)) = [])
           \<and> (int_tree s' nm = None \<or> int_tree s' nm = Some r)
           \<and> pending_list (nodes s' r) = filter (\<lambda>(f, p). f \<noteq> fut) (pending_list (nodes s r))
           \<and> (\<forall>n. n \<noteq> nm \<longrightarrow> int_tree s' n = int_tree s n)"
  using assms
  by (simp add: wait_for_data_def timeout_def delitem_def Let_def)

lemma expressed2_entry:
  "face_running expressed2 \<and> int_tree expressed2 name_a = Some 0
   \<and> validator (nodes expressed2 0) = None
   \<and> pending_list (nodes expressed2 0) = [(0, param0), (1, param0)]
   \<and> future_count expressed2 = 2
   \<and> futures expressed2 = Map.empty
   \<and> face_sent expressed2 = [[0x08, 0x01, 0x61], [0x08, 0x01, 0x61]]"
  by (simp add: expressed2_def expressed1_def express_interest_def connected_def NDNApp_init_def
      env0_def Let_def append_interest_def new_InterestTreeNode_def name_a_def)

lemma expressed1_futures: "futures expressed1 = Map.empty"
  by (simp add: expressed1_def express_interest_def connected_def NDNApp_init_def
      env0_def Let_def)

theorem wait_for_data_expiry_witness:
  "(\<exists>s'. wait_for_data expressed1 0 (Some 4000) name_a 0 False = (Inl InterestTimeout, s')
         \<and> int_tree s' name_a = None)
   \<and> (\<exists>s'. wait_for_data expressed2 0 (Some 4000) name_a 0 False = (Inl InterestTimeout, s')
         \<and> int_tree s' name_a = Some 0 \<and> pending_list (nodes s' 0) = [(1, param0)])"
proof -
  have f1: "futures expressed1 0 = None" by (simp add: expressed1_futures)
  have f2: "futures expressed2 0 = None" by (simp add: expressed2_entry)
  have t1: "int_tree expressed1 name_a = Some 0" by (simp add: expressed1_entry)
  have t2: "int_tree expressed2 name_a = Some 0" by (simp add: expressed2_entry)
  show ?thesis
    using wait_for_data_expiry [OF f1 t1, of "Some 4000"] wait_for_data_expiry [OF f2 t2, of "Some 4000"]
    by (auto simp: expressed1_entry expressed2_entry)
qed

text \<open>
  Claim C1, as stated, fails: the second of two expressions of the same final name finds
  the entry of the first, appends its waiter, and sends its Interest like the first.
\<close>

theorem two_expressions_two_packets:
  "int_tree expressed1 name_a = Some 0
   \<and> pending_list (nodes expressed1 0) = [(0, param0)]
   \<and> futures expressed1 0 = None
   \<and> face_sent expressed1 = [[0x08, 0x01, 0x61]]
   \<and> express_interest env0 expressed1 name_a None None param0
       = (Inr \<lparr>w_future = 1, w_lifetime = Some 4000, w_name = name_a, w_node = 0\<rparr>, expressed2)
   \<and> face_sent expressed2 = [[0x08, 0x01, 0x61], [0x08, 0x01, 0x61]]
   \<and> length (face_sent expressed2) \<noteq> 1"
proof -
  have "express_interest env0 expressed1 name_a None None param0
       = (Inr \<lparr>w_future = 1, w_lifetime = Some 4000, w_name = name_a, w_node = 0\<rparr>, expressed2)"
    unfolding expressed2_def
    using expressed1_entry
    by (simp add: express_interest_def env0_def Let_def param0_def)
  then show ?thesis
    by (simp add: expressed1_entry expressed2_entry expressed1_futures)
qed

subsection \<open>Completing futures and the loops of \<open>_on_data\<close>\<close>

lemma resolve_done: "fs f = Some x \<Longrightarrow> resolve fs res f = Some x"
proof (induction res arbitrary: fs)
  case Nil
  then show ?case by simp
next
  case (Cons a res)
  obtain fut out where a: "a = (fut, out)" by (cases a)
  have "(case fs fut of None \<Rightarrow> fs(fut \<mapsto> out) | Some d \<Rightarrow> fs) f = Some x"
    using Cons.prems by (cases "fs fut") auto
  then show ?case using Cons.IH by (simp add: a)
qed

lemma resolve_other: "f \<notin> fst ` set res \<Longrightarrow> resolve fs res f = fs f"
proof (induction res arbitrary: fs)
  case Nil
  then show ?case by simp
next
  case (Cons a res)
  obtain fut out where a: "a = (fut, out)" by (cases a)
  have ne: "fut \<noteq> f" and rest: "f \<notin> fst ` set res" using Cons.prems by (auto simp: a)
  have "(case fs fut of None \<Rightarrow> fs(fut \<mapsto> out) | Some d \<Rightarrow> fs) f = fs f"
    using ne by (cases "fs fut") auto
  then show ?case using Cons.IH [OF rest] by (simp add: a)
qed

lemma resolve_pending:
  "\<forall>(g, out')\<in>set res. out' = out \<Longrightarrow> f \<in> fst ` set res \<Longrightarrow> fs f = None
   \<Longrightarrow> resolve fs res f = Some out"
proof (induction res arbitrary: fs)
  case Nil
  then show ?case by simp
next
  case (Cons a res)
  obtain fut where a: "a = (fut, out)" using Cons.prems(1) by (cases a) auto
  have all: "\<forall>(g, out')\<in>set res. out' = out" using Cons.prems(1) by simp
  let ?fs = "case fs fut of None \<Rightarrow> fs(fut \<mapsto> out) | Some d \<Rightarrow> fs"
  show ?case
  proof (cases "fut = f")
    case True
    then have "?fs f = Some out" using Cons.prems(3) by simp
    then have "resolve ?fs res f = Some out" by (rule resolve_done)
    then show ?thesis by (simp add: a)
  next
    case False
    then have mem: "f \<in> fst ` set res" using Cons.prems(2) by (auto simp: a)
    have "?fs f = None" using False Cons.prems(3) by (cases "fs fut") auto
    then have "resolve ?fs res f = Some out" using Cons.IH [OF all mem] by blast
    then show ?thesis by (simp add: a)
  qed
qed

lemma own_futures_subset: "fst ` set (own_futures node res) \<subseteq> fst ` set (pending_list node)"
  by (force simp: own_futures_def)

lemma on_data_entry_frame:
  assumes "on_data_entry e invalid nm meta_info cont sig (s, cl) (p, r) = (s', cl')"
  shows "int_tree s' = int_tree s"
    and "data_validator s' = data_validator s"
    and "x \<noteq> r \<Longrightarrow> nodes s' x = nodes s x"
    and "f \<notin> fst ` set (pending_list (nodes s r)) \<Longrightarrow> futures s' f = futures s f"
    and "cl' = cl \<or> cl' = cl @ [p]"
proof -
  obtain node1 res clean where
    op: "(if validate e (data_validator_of s (nodes s r)) nm sig
          then satisfy (nodes s r) nm meta_info cont (p \<noteq> nm)
          else invalid (nodes s r) nm meta_info cont) = (node1, res, clean)"
    by (metis prod_cases3)
  have s': "s' = s\<lparr>trace := trace s @ [Validated (data_validator_of s (nodes s r)) nm],
                   nodes := (nodes s)(r := node1),
                   futures := resolve (futures s) (own_futures (nodes s r) res)\<rparr>"
    and cl': "cl' = (if clean then cl @ [p] else cl)"
    using assms op by (simp_all add: on_data_entry_def Let_def data_validator_of_def)
  show "int_tree s' = int_tree s" "data_validator s' = data_validator s"
    by (simp_all add: s')
  show "x \<noteq> r \<Longrightarrow> nodes s' x = nodes s x" by (simp add: s')
  show "cl' = cl \<or> cl' = cl @ [p]" by (simp add: cl')
  show "f \<notin> fst ` set (pending_list (nodes s r)) \<Longrightarrow> futures s' f = futures s f"
  proof -
    assume "f \<notin> fst ` set (pending_list (nodes s r))"
    then have "f \<notin> fst ` set (own_futures (nodes s r) res)"
      using own_futures_subset by blast
    then show ?thesis by (simp add: s' resolve_other)
  qed
qed

lemma on_data_loop_frame:
  assumes "foldl (on_data_entry e invalid nm meta_info cont sig) (s, cl) ps = (s', cl')"
      and "distinct (map snd ps)" "distinct (map fst ps)"
      and "r \<notin> snd ` set ps"
      and "\<And>p x f. (p, x) \<in> set ps \<Longrightarrow> f \<in> F \<Longrightarrow> f \<notin> fst ` set (pending_list (nodes s x))"
  shows "int_tree s' = int_tree s \<and> data_validator s' = data_validator s
         \<and> nodes s' r = nodes s r \<and> (\<forall>f\<in>F. futures s' f = futures s f)
         \<and> (\<exists>ks. cl' = cl @ ks \<and> set ks \<subseteq> fst ` set ps \<and> distinct ks)"
  using assms
proof (induction ps arbitrary: s cl)
  case Nil
  then show ?case by simp
next
  case (Cons a ps)
  obtain p x where a: "a = (p, x)" by (cases a)
  obtain s1 cl1 where st: "on_data_entry e invalid nm meta_info cont sig (s, cl) (p, x) = (s1, cl1)"
    by (cases "on_data_entry e invalid nm meta_info cont sig (s, cl) (p, x)")
  note fr = on_data_entry_frame [OF st]
  have rest: "foldl (on_data_entry e invalid nm meta_info cont sig) (s1, cl1) ps = (s', cl')"
    using Cons.prems(1) by (simp add: a st)
  have x: "x \<noteq> r" "x \<notin> snd ` set ps" "p \<notin> fst ` set ps"
    using Cons.prems(2,3,4) by (auto simp: a)
  have wa: "f \<notin> fst ` set (pending_list (nodes s1 y))" if "(q, y) \<in> set ps" "f \<in> F" for q y f
  proof -
    have "y \<noteq> x" using that(1) x(2) by force
    then have "nodes s1 y = nodes s y" by (rule fr(3))
    moreover have "f \<notin> fst ` set (pending_list (nodes s y))"
      using Cons.prems(5) [of q y f] that by (simp add: a)
    ultimately show ?thesis by simp
  qed
  have IH: "int_tree s' = int_tree s1 \<and> data_validator s' = data_validator s1
         \<and> nodes s' r = nodes s1 r \<and> (\<forall>f\<in>F. futures s' f = futures s1 f)
         \<and> (\<exists>ks. cl' = cl1 @ ks \<and> set ks \<subseteq> fst ` set ps \<and> distinct ks)"
  proof (rule Cons.IH [OF rest])
    show "distinct (map snd ps)" "distinct (map fst ps)" "r \<notin> snd ` set ps"
      using Cons.prems(2,3,4) by (simp_all add: a)
  qed (rule wa)
  have fut: "\<forall>f\<in>F. futures s1 f = futures s f"
  proof
    fix f assume "f \<in> F"
    then have "f \<notin> fst ` set (pending_list (nodes s x))"
      using Cons.prems(5) [of p x f] by (simp add: a)
    then show "futures s1 f = futures s f" by (rule fr(4))
  qed
  have n: "nodes s1 r = nodes s r" using fr(3) x(1) by simp
  from IH obtain ks where ks: "cl' = cl1 @ ks" "set ks \<subseteq> fst ` set ps" "distinct ks" by blast
  have "\<exists>ks'. cl' = cl @ ks' \<and> set ks' \<subseteq> fst ` set (a # ps) \<and> distinct ks'"
  proof (rule disjE [OF fr(5)])
    assume "cl1 = cl"
    then show ?thesis using ks by (auto simp: a)
  next
    assume c: "cl1 = cl @ [p]"
    have "p \<notin> set ks" using ks(2) x(3) by blast
    then have "cl' = cl @ (p # ks) \<and> set (p # ks) \<subseteq> fst ` set (a # ps) \<and> distinct (p # ks)"
      using ks c by (auto simp: a)
    then show ?thesis by blast
  qed
  then show ?case using IH fut n fr(1,2) by simp
qed

lemma del_all_ok:
  "distinct ks \<Longrightarrow> set ks \<subseteq> dom (int_tree s) \<Longrightarrow>
   \<exists>s'. del_all s ks = (Inr (), s') \<and> futures s' = futures s
        \<and> (\<forall>k\<in>set ks. int_tree s' k = None)"
proof (induction ks arbitrary: s)
  case Nil
  then show ?case by simp
next
  case (Cons k ks)
  obtain v where v: "int_tree s k = Some v" using Cons.prems(2) by auto
  let ?s = "s\<lparr>int_tree := (int_tree s)(k := None)\<rparr>"
  have d: "del_all s (k # ks) = del_all ?s ks" by (simp add: delitem_def v)
  have sub: "set ks \<subseteq> dom (int_tree ?s)" using Cons.prems by auto
  have dis: "distinct ks" using Cons.prems(1) by simp
  obtain s' where s': "del_all ?s ks = (Inr (), s')" "futures s' = futures ?s"
      "\<forall>j\<in>set ks. int_tree s' j = None"
    using Cons.IH [OF dis sub] by blast
  have keep: "int_tree s' k = None"
  proof -
    have "int_tree (snd (del_all t js)) j = None" if "int_tree t j = None" for t js j
      using that by (induction js arbitrary: t) (auto simp: delitem_def split: option.splits)
    from this [of ?s k ks] show ?thesis by (simp add: s'(1))
  qed
  show ?case using d s' keep by simp
qed

lemma prefixes_upto_Suc:
  "prefixes_upto t nm (Suc k)
     = prefixes_upto t nm k @ (case t (take k nm) of None \<Rightarrow> [] | Some v \<Rightarrow> [(take k nm, v)])"
  by (simp add: prefixes_upto_def List.map_filter_def split: option.split)

lemma prefixes_split:
  "prefixes t nm = prefixes_upto t nm (length nm) @ (case t nm of None \<Rightarrow> [] | Some v \<Rightarrow> [(nm, v)])"
proof -
  have "prefixes t nm = prefixes_upto t nm (Suc (length nm))"
    by (simp only: prefixes_def prefixes_upto_def)
  then show ?thesis by (simp add: prefixes_upto_Suc split: option.split)
qed

lemma prefixes_upto_mem:
  "(p, v) \<in> set (prefixes_upto t nm k) \<Longrightarrow> \<exists>n<k. p = take n nm \<and> t p = Some v"
proof (induction k)
  case 0
  then show ?case by (simp add: prefixes_upto_def List.map_filter_def)
next
  case (Suc k)
  then show ?case
    by (auto simp: prefixes_upto_Suc less_Suc_eq split: option.splits)
qed

lemma prefixes_upto_strict:
  assumes "(p, v) \<in> set (prefixes_upto t nm (length nm))"
  shows "p \<noteq> nm" "t p = Some v"
proof -
  obtain n where n: "n < length nm" "p = take n nm" "t p = Some v"
    using prefixes_upto_mem [OF assms] by blast
  then have "length p < length nm" by simp
  then show "p \<noteq> nm" by blast
  show "t p = Some v" by (rule n(3))
qed

lemma prefixes_upto_distinct:
  "k \<le> Suc (length nm) \<Longrightarrow> distinct (map fst (prefixes_upto t nm k))"
proof (induction k)
  case 0
  then show ?case by (simp add: prefixes_upto_def List.map_filter_def)
next
  case (Suc k)
  have "take k nm \<notin> fst ` set (prefixes_upto t nm k)"
  proof
    assume "take k nm \<in> fst ` set (prefixes_upto t nm k)"
    then obtain v where v: "(take k nm, v) \<in> set (prefixes_upto t nm k)" by force
    from prefixes_upto_mem [OF v] obtain n where "n < k" "take k nm = take n nm"
      by blast
    then have "length (take k nm) = length (take n nm)" by simp
    then show False using \<open>n < k\<close> Suc.prems by simp
  qed
  then show ?case using Suc by (simp add: prefixes_upto_Suc split: option.split)
qed

lemma distinct_refs:
  assumes "distinct (map fst ps)"
      and "\<And>p x. (p, x) \<in> set ps \<Longrightarrow> t p = Some x"
      and "\<And>n m r. t n = Some r \<Longrightarrow> t m = Some r \<Longrightarrow> n = m"
  shows "distinct (map snd ps)"
  using assms(1,2)
proof (induction ps)
  case Nil
  then show ?case by simp
next
  case (Cons a ps)
  obtain p x where a: "a = (p, x)" by (cases a)
  have "x \<notin> snd ` set ps"
  proof
    assume "x \<in> snd ` set ps"
    then obtain q where q: "(q, x) \<in> set ps" by force
    then have "t q = Some x" "t p = Some x" using Cons.prems(2) by (auto simp: a)
    then have "q = p" by (rule assms(3))
    then show False using q Cons.prems(1) by (force simp: a)
  qed
  moreover have "distinct (map snd ps)"
    using Cons.IH Cons.prems by simp
  ultimately show ?case by (simp add: a)
qed

lemma express_interest_step:
  assumes run: "face_running s" and mk: "make_interest e nm param app_param = (interest, fn)"
  shows "\<exists>w s'. express_interest e s nm app_param v param = (Inr w, s')
           \<and> w_future w = future_count s \<and> w_node w = pit_ref s fn \<and> w_name w = fn
           \<and> face_running s' \<and> face_sent s' = face_sent s @ [interest]
           \<and> future_count s' = Suc (future_count s) \<and> futures s' = futures s
           \<and> data_validator s' = data_validator s
           \<and> int_tree s' = (int_tree s)(fn \<mapsto> pit_ref s fn)
           \<and> (\<forall>x. x \<noteq> pit_ref s fn \<longrightarrow> nodes s' x = nodes s x)
           \<and> pending_list (nodes s' (pit_ref s fn)) = pit_waiters s fn @ [(future_count s, param)]
           \<and> validator (nodes s' (pit_ref s fn)) = v
           \<and> node_count s' = (if int_tree s fn = None then Suc (node_count s) else node_count s)"
proof (cases "int_tree s fn")
  case None
  then show ?thesis
    using run mk
    by (simp add: express_interest_def Let_def append_interest_def pit_ref_def pit_waiters_def
        new_InterestTreeNode_def)
next
  case (Some r)
  then have "(int_tree s)(fn \<mapsto> r) = int_tree s" by (simp add: map_upd_triv)
  then show ?thesis
    using run mk Some
    by (simp add: express_interest_def Let_def append_interest_def pit_ref_def pit_waiters_def)
qed

lemma express_interest_wf:
  assumes wf: "wf_app s"
      and t: "int_tree s' = (int_tree s)(fn \<mapsto> pit_ref s fn)"
      and n: "\<forall>x. x \<noteq> pit_ref s fn \<longrightarrow> nodes s' x = nodes s x"
      and p: "pending_list (nodes s' (pit_ref s fn)) = pit_waiters s fn @ [(future_count s, param)]"
      and c: "node_count s' = (if int_tree s fn = None then Suc (node_count s) else node_count s)"
      and f: "future_count s' = Suc (future_count s)" "futures s' = futures s"
  shows "wf_app s'"
proof -
  from wf have inj: "\<And>n m r. int_tree s n = Some r \<Longrightarrow> int_tree s m = Some r \<Longrightarrow> n = m"
    and bnd: "\<And>n r. int_tree s n = Some r \<Longrightarrow> r < node_count s"
    and fut: "\<And>n r g. int_tree s n = Some r \<Longrightarrow> g \<in> fst ` set (pending_list (nodes s r)) \<Longrightarrow> g < future_count s"
    and new: "\<And>g. future_count s \<le> g \<Longrightarrow> futures s g = None"
    unfolding wf_app_def by blast+
  let ?r = "pit_ref s fn"
  have other: "x \<noteq> ?r" if "int_tree s m = Some x" "m \<noteq> fn" for m x
  proof (cases "int_tree s fn")
    case None
    then show ?thesis using bnd [OF that(1)] by (simp add: pit_ref_def)
  next
    case (Some r)
    then show ?thesis using inj [OF that(1), of fn] that(2) by (auto simp: pit_ref_def)
  qed
  have w_old: "g < future_count s" if "g \<in> fst ` set (pit_waiters s fn)" for g
  proof (cases "int_tree s fn")
    case None
    then show ?thesis using that by (simp add: pit_waiters_def)
  next
    case (Some r)
    then have "g \<in> fst ` set (pending_list (nodes s r))" using that by (simp add: pit_waiters_def)
    then show ?thesis by (rule fut [OF Some])
  qed
  have 1: "n = m" if "int_tree s' n = Some r" "int_tree s' m = Some r" for n m r
    using that other inj unfolding t by (auto split: if_splits)
  have 2: "r < node_count s'" if "int_tree s' n = Some r" for n r
  proof (cases "n = fn")
    case True
    then have "r = ?r" using that by (simp add: t)
    then show ?thesis using bnd by (auto simp: c pit_ref_def split: option.splits)
  next
    case False
    then have "int_tree s n = Some r" using that by (simp add: t)
    then show ?thesis using bnd by (simp add: c less_Suc_eq)
  qed
  have 3: "g < future_count s'" if "int_tree s' n = Some r" "g \<in> fst ` set (pending_list (nodes s' r))" for n r g
  proof (cases "n = fn")
    case True
    then have "r = ?r" using that(1) by (simp add: t)
    then have "g \<in> fst ` set (pit_waiters s fn) \<or> g = future_count s"
      using that(2) by (auto simp: p)
    then show ?thesis
    proof
      assume "g \<in> fst ` set (pit_waiters s fn)"
      then have "g < future_count s" by (rule w_old)
      then show ?thesis by (simp add: f)
    next
      assume "g = future_count s"
      then show ?thesis by (simp add: f)
    qed
  next
    case False
    then have m: "int_tree s n = Some r" using that(1) by (simp add: t)
    then have "r \<noteq> ?r" using other False by blast
    then have "nodes s' r = nodes s r" using n by blast
    then show ?thesis using fut [OF m] that(2) by (simp add: f less_Suc_eq)
  qed
  have 4: "futures s' g = None" if "future_count s' \<le> g" for g
    using that new by (simp add: f)
  show ?thesis unfolding wf_app_def using 1 2 3 4 by blast
qed

lemma satisfy_exact:
  "satisfy node nm meta_info cont False
     = (node\<lparr>pending_list := []\<rparr>,
        map (\<lambda>(fut, param). (fut, Result nm meta_info cont)) (pending_list node), True)"
proof -
  have "filter (\<lambda>(fut, param). can_be_prefix param \<or> \<not> False) xs = xs" for xs :: "(future \<times> InterestParam) list"
    by (induction xs) auto
  moreover have "filter (\<lambda>(fut, param). \<not> (can_be_prefix param \<or> \<not> False)) xs = []" for xs :: "(future \<times> InterestParam) list"
    by (induction xs) auto
  ultimately show ?thesis by (simp add: satisfy_def Let_def)
qed

lemma on_data_entry_exact:
  assumes acc: "validate e (data_validator_of s (nodes s r)) nm sig"
  shows "\<exists>s'. on_data_entry e invalid nm meta_info cont sig (s, cl) (nm, r) = (s', cl @ [nm])
           \<and> int_tree s' = int_tree s
           \<and> (\<forall>f\<in>fst ` set (pending_list (nodes s r)).
                  futures s f = None \<longrightarrow> futures s' f = Some (Result nm meta_info cont))"
proof -
  let ?res = "map (\<lambda>(fut, param). (fut, Result nm meta_info cont)) (pending_list (nodes s r))"
  let ?s' = "s\<lparr>trace := trace s @ [Validated (data_validator_of s (nodes s r)) nm],
               nodes := (nodes s)(r := (nodes s r)\<lparr>pending_list := []\<rparr>),
               futures := resolve (futures s) (own_futures (nodes s r) ?res)\<rparr>"
  have step: "on_data_entry e invalid nm meta_info cont sig (s, cl) (nm, r) = (?s', cl @ [nm])"
    using acc by (simp add: on_data_entry_def Let_def satisfy_exact data_validator_of_def)
  have own: "own_futures (nodes s r) ?res = ?res"
    unfolding own_futures_def by (rule filter_True) force
  have all: "\<forall>(g, out')\<in>set ?res. out' = Result nm meta_info cont" by auto
  have "futures ?s' f = Some (Result nm meta_info cont)"
    if "f \<in> fst ` set (pending_list (nodes s r))" "futures s f = None" for f
  proof -
    have mem: "f \<in> fst ` set ?res" using that(1) by force
    have "resolve (futures s) ?res f = Some (Result nm meta_info cont)"
      by (rule resolve_pending [where fs = "futures s" and f = f, OF all mem that(2)])
    then show ?thesis by (simp add: own)
  qed
  then show ?thesis using step by auto
qed

subsection \<open>Two expressions of one name\<close>

lemma wf_app_connected_init: "wf_app (connected NDNApp_init)"
  by (simp add: wf_app_def connected_def NDNApp_init_def new_InterestTreeNode_def)

text \<open>
  Claim C1, amended. Two expressions of one final name share one entry of the interest
  tree, the second appends its waiter to it, and each sends its Interest; a Data of exactly
  that name which the validator of the entry accepts completes both futures with the same
  result and removes the entry.
\<close>

theorem aggregated_expressions:
  assumes run: "face_running s" and wf: "wf_app s"
      and mk1: "make_interest e nm1 param1 app_param1 = (interest1, fn)"
      and mk2: "make_interest e nm2 param2 app_param2 = (interest2, fn)"
      and acc: "validate e (case v2 of Some v \<Rightarrow> v | None \<Rightarrow> data_validator s) fn sig"
  shows "\<exists>w1 s1 w2 s2 s3.
           express_interest e s nm1 app_param1 v1 param1 = (Inr w1, s1)
         \<and> express_interest e s1 nm2 app_param2 v2 param2 = (Inr w2, s2)
         \<and> face_sent s2 = face_sent s @ [interest1, interest2]
         \<and> w_node w1 = w_node w2 \<and> int_tree s2 fn = Some (w_node w2)
         \<and> pending_list (nodes s2 (w_node w2))
             = pit_waiters s fn @ [(w_future w1, param1), (w_future w2, param2)]
         \<and> w_future w1 \<noteq> w_future w2
         \<and> on_data e invalid s2 fn meta_info cont sig = (Inr (), s3)
         \<and> futures s3 (w_future w1) = Some (Result fn meta_info cont)
         \<and> futures s3 (w_future w2) = Some (Result fn meta_info cont)
         \<and> int_tree s3 fn = None"
proof -
  let ?r = "pit_ref s fn" and ?f1 = "future_count s" and ?f2 = "Suc (future_count s)"
  from express_interest_step [OF run mk1, of v1] obtain w1 s1 where
    e1: "express_interest e s nm1 app_param1 v1 param1 = (Inr w1, s1)"
    and w1: "w_future w1 = ?f1" "w_node w1 = ?r"
    and run1: "face_running s1"
    and sent1: "face_sent s1 = face_sent s @ [interest1]"
    and fc1: "future_count s1 = Suc (future_count s)" and fu1: "futures s1 = futures s"
    and dv1: "data_validator s1 = data_validator s"
    and t1: "int_tree s1 = (int_tree s)(fn \<mapsto> ?r)"
    and n1: "\<forall>x. x \<noteq> ?r \<longrightarrow> nodes s1 x = nodes s x"
    and p1: "pending_list (nodes s1 ?r) = pit_waiters s fn @ [(?f1, param1)]"
    and c1: "node_count s1 = (if int_tree s fn = None then Suc (node_count s) else node_count s)"
    by blast
  have wf1: "wf_app s1"
    by (rule express_interest_wf [OF wf t1 n1 p1 c1 fc1 fu1])
  have r1: "pit_ref s1 fn = ?r" by (simp add: pit_ref_def t1)
  have pw1: "pit_waiters s1 fn = pit_waiters s fn @ [(?f1, param1)]"
    by (simp add: pit_waiters_def t1 p1)
  from express_interest_step [OF run1 mk2, of v2] obtain w2 s2 where
    e2: "express_interest e s1 nm2 app_param2 v2 param2 = (Inr w2, s2)"
    and w2: "w_future w2 = ?f2" "w_node w2 = ?r"
    and sent2: "face_sent s2 = face_sent s @ [interest1, interest2]"
    and fc2: "future_count s2 = Suc (future_count s1)" and fu2: "futures s2 = futures s"
    and dv2: "data_validator s2 = data_validator s"
    and t2: "int_tree s2 = (int_tree s)(fn \<mapsto> ?r)"
    and n2: "\<forall>x. x \<noteq> ?r \<longrightarrow> nodes s2 x = nodes s1 x"
    and p2: "pending_list (nodes s2 ?r) = pit_waiters s fn @ [(?f1, param1), (?f2, param2)]"
    and val2: "validator (nodes s2 ?r) = v2"
    and c2: "node_count s2 = (if int_tree s1 fn = None then Suc (node_count s1) else node_count s1)"
    unfolding r1 pw1 fc1 fu1 dv1 sent1 t1 by auto
  have t2': "int_tree s2 = (int_tree s1)(fn \<mapsto> pit_ref s1 fn)" by (simp add: t2 t1 r1)
  have n2': "\<forall>x. x \<noteq> pit_ref s1 fn \<longrightarrow> nodes s2 x = nodes s1 x" using n2 by (simp add: r1)
  have p2': "pending_list (nodes s2 (pit_ref s1 fn)) = pit_waiters s1 fn @ [(future_count s1, param2)]"
    by (simp add: r1 p2 pw1 fc1)
  have fu2': "futures s2 = futures s1" by (simp add: fu2 fu1)
  have wf2: "wf_app s2"
    by (rule express_interest_wf [OF wf1 t2' n2' p2' c2 fc2 fu2'])
  have inj2: "n = m" if "int_tree s2 n = Some x" "int_tree s2 m = Some x" for n m x
    using wf2 that unfolding wf_app_def by blast
  have fn2: "int_tree s2 fn = Some ?r" by (simp add: t2)
  have pend: "futures s2 ?f1 = None" "futures s2 ?f2 = None"
    using wf unfolding wf_app_def fu2 by simp_all
  let ?strict = "prefixes_upto (int_tree s2) fn (length fn)"
  let ?step = "on_data_entry e invalid fn meta_info cont sig"
  have ps: "prefixes (int_tree s2) fn = ?strict @ [(fn, ?r)]"
    by (simp add: prefixes_split fn2)
  have d_fst: "distinct (map fst ?strict)"
    by (rule prefixes_upto_distinct) simp
  have mem: "int_tree s2 p = Some x" "p \<noteq> fn" if "(p, x) \<in> set ?strict" for p x
    using prefixes_upto_strict [OF that] by simp_all
  have d_snd: "distinct (map snd ?strict)"
    by (rule distinct_refs [OF d_fst mem(1) inj2])
  have other: "x \<noteq> ?r" if "(p, x) \<in> set ?strict" for p x
  proof
    assume "x = ?r"
    then have "p = fn" using inj2 [OF mem(1) [OF that], of fn] fn2 by simp
    then show False using mem(2) [OF that] by simp
  qed
  have rnot: "?r \<notin> snd ` set ?strict" using other by force
  have waiters: "f \<notin> fst ` set (pending_list (nodes s2 x))"
    if "(p, x) \<in> set ?strict" "f \<in> {?f1, ?f2}" for p x f
  proof
    assume a: "f \<in> fst ` set (pending_list (nodes s2 x))"
    have x: "x \<noteq> ?r" by (rule other [OF that(1)])
    then have "nodes s2 x = nodes s x" using n1 n2 by simp
    moreover have "int_tree s p = Some x"
      using mem [OF that(1)] by (simp add: t2)
    ultimately have "f < future_count s"
      using wf a unfolding wf_app_def by metis
    then show False using that(2) by auto
  qed
  obtain sa cla where fa: "foldl ?step (s2, []) ?strict = (sa, cla)"
    by (cases "foldl ?step (s2, []) ?strict")
  from on_data_loop_frame [OF fa d_snd d_fst rnot waiters, of "{?f1, ?f2}"]
  obtain ks where
    ta: "int_tree sa = int_tree s2" and dva: "data_validator sa = data_validator s2"
    and na: "nodes sa ?r = nodes s2 ?r"
    and fua: "futures sa ?f1 = futures s2 ?f1" "futures sa ?f2 = futures s2 ?f2"
    and ks: "cla = ks" "set ks \<subseteq> fst ` set ?strict" "distinct ks"
    by auto
  have acc': "validate e (data_validator_of sa (nodes sa ?r)) fn sig"
    using acc by (cases v2) (simp_all add: data_validator_of_def na val2 dva dv2)
  from on_data_entry_exact [OF acc', of invalid meta_info cont cla] obtain sb where
    sb: "?step (sa, cla) (fn, ?r) = (sb, cla @ [fn])"
    and tb: "int_tree sb = int_tree sa"
    and fub: "\<forall>f\<in>fst ` set (pending_list (nodes sa ?r)).
                futures sa f = None \<longrightarrow> futures sb f = Some (Result fn meta_info cont)"
    by blast
  have in1: "?f1 \<in> fst ` set (pending_list (nodes sa ?r))"
    and in2: "?f2 \<in> fst ` set (pending_list (nodes sa ?r))"
    by (simp_all add: na p2)
  have "futures sa ?f1 = None" "futures sa ?f2 = None"
    using fua pend by simp_all
  then have done1: "futures sb ?f1 = Some (Result fn meta_info cont)"
    and done2: "futures sb ?f2 = Some (Result fn meta_info cont)"
    using fub [rule_format, OF in1] fub [rule_format, OF in2] by blast+
  have loop: "foldl ?step (s2, []) (prefixes (int_tree s2) fn) = (sb, ks @ [fn])"
    by (simp add: ps fa sb ks(1) [symmetric])
  have "fn \<notin> set ks"
  proof
    assume "fn \<in> set ks"
    then obtain x where "(fn, x) \<in> set ?strict" using ks(2) by force
    then show False using mem(2) by blast
  qed
  then have dis: "distinct (ks @ [fn])" using ks(3) by simp
  have sub: "set (ks @ [fn]) \<subseteq> dom (int_tree sb)"
  proof
    fix k assume "k \<in> set (ks @ [fn])"
    then have "k = fn \<or> (\<exists>x. (k, x) \<in> set ?strict)" using ks(2) by force
    then show "k \<in> dom (int_tree sb)" using mem(1) fn2 by (auto simp: tb ta)
  qed
  from del_all_ok [OF dis sub] obtain s3 where
    s3: "del_all sb (ks @ [fn]) = (Inr (), s3)" "futures s3 = futures sb"
        "\<forall>k\<in>set (ks @ [fn]). int_tree s3 k = None"
    by blast
  have od: "on_data e invalid s2 fn meta_info cont sig = (Inr (), s3)"
    by (simp add: on_data_def loop s3(1))
  show ?thesis
    using e1 e2 sent2 w1 w2 fn2 p2 od done1 done2 s3(2,3) by auto
qed

theorem aggregated_expressions_witness:
  "face_running (connected NDNApp_init) \<and> wf_app (connected NDNApp_init)
   \<and> make_interest env0 name_a param0 None = ([0x08, 0x01, 0x61], name_a)
   \<and> validate env0 (data_validator (connected NDNApp_init)) name_a unsigned
   \<and> (\<exists>w1 s1 w2 s2 s3.
           express_interest env0 (connected NDNApp_init) name_a None (Some 1) param0 = (Inr w1, s1)
         \<and> express_interest env0 s1 name_a None None param0 = (Inr w2, s2)
         \<and> face_sent s2 = [[0x08, 0x01, 0x61], [0x08, 0x01, 0x61]]
         \<and> w_node w1 = w_node w2 \<and> int_tree s2 name_a = Some (w_node w2)
         \<and> pending_list (nodes s2 (w_node w2)) = [(w_future w1, param0), (w_future w2, param0)]
         \<and> w_future w1 \<noteq> w_future w2
         \<and> on_data env0 invalid_remove s2 name_a meta0 (Some [0x2A]) unsigned = (Inr (), s3)
         \<and> futures s3 (w_future w1) = Some (Result name_a meta0 (Some [0x2A]))
         \<and> futures s3 (w_future w2) = Some (Result name_a meta0 (Some [0x2A]))
         \<and> int_tree s3 name_a = None)"
proof -
  have run: "face_running (connected NDNApp_init)"
    by (simp add: connected_def)
  have mk: "make_interest env0 name_a param0 None = ([0x08, 0x01, 0x61], name_a)"
    by (simp add: env0_def name_a_def)
  have acc: "validate env0 (case None of Some v \<Rightarrow> v | None \<Rightarrow> data_validator (connected NDNApp_init))
               name_a unsigned"
    by (simp add: env0_def connected_def NDNApp_init_def sha256_digest_checker_def)
  have pw: "pit_waiters (connected NDNApp_init) name_a = []"
    by (simp add: pit_waiters_def connected_def NDNApp_init_def)
  have fs: "face_sent (connected NDNApp_init) = []"
    by (simp add: connected_def NDNApp_init_def)
  show ?thesis
    using aggregated_expressions [OF run wf_app_connected_init mk mk acc,
        of "Some 1" invalid_remove meta0 "Some [0x2A]"] run mk acc
    by (simp add: pw fs wf_app_connected_init)
qed

end
